theory Spec2Isabelle
  imports Complex_Main "HOL-Library.Multiset"
begin

section \<open>Strings\<close>

text \<open>
  Strings of the source are JavaScript strings, sequences of code units. They are
  modelled as \<open>string\<close>, one \<open>char\<close> per code unit, which covers the code units below
  256 (ASCII and Latin-1). The whitespace class of the regular expression \<open>\s\<close> and of
  \<open>trim\<close> has seven members on that range: tab, line feed, vertical tab, form feed,
  carriage return, space and the no-break space U+00A0.
\<close>

definition is_space :: "char \<Rightarrow> bool" where
  "is_space c = (c = CHR '' '' \<or> c = CHR 0x09 \<or> c = CHR 0x0A \<or> c = CHR 0x0B
                 \<or> c = CHR 0x0C \<or> c = CHR 0x0D \<or> c = CHR 0xA0)"

text \<open>\<open>s.trim()\<close>\<close>

definition trim :: "string \<Rightarrow> string" where
  "trim s = rev (dropWhile is_space (rev (dropWhile is_space s)))"

text \<open>\<open>s.replace(/\s+/g, ' ')\<close>: every maximal run of whitespace becomes one space.\<close>

function collapse_ws :: "string \<Rightarrow> string" where
  "collapse_ws [] = []"
| "collapse_ws (c # cs) =
     (if is_space c then CHR '' '' # collapse_ws (dropWhile is_space cs)
      else c # collapse_ws cs)"
  by pat_completeness auto
termination
  by (relation "measure length") (auto simp: length_dropWhile_le le_imp_less_Suc)

text \<open>
  \<open>s.split(sep)\<close> for a one-character separator. The result is never empty:
  \<open>''.split(' ')\<close> is \<open>['']\<close>.
\<close>

fun split_on :: "char \<Rightarrow> string \<Rightarrow> string list" where
  "split_on sep [] = [[]]"
| "split_on sep (c # cs) =
     (if c = sep then [] # split_on sep cs
      else (case split_on sep cs of
              [] \<Rightarrow> [[c]]
            | w # ws \<Rightarrow> (c # w) # ws))"

text \<open>\<open>s.startsWith(p)\<close> and \<open>s.includes(p)\<close>\<close>

fun starts_with :: "string \<Rightarrow> string \<Rightarrow> bool" where
  "starts_with s [] = True"
| "starts_with [] (p # ps) = False"
| "starts_with (c # cs) (p # ps) = (c = p \<and> starts_with cs ps)"

fun js_includes :: "string \<Rightarrow> string \<Rightarrow> bool" where
  "js_includes [] p = (p = [])"
| "js_includes (c # cs) p = (starts_with (c # cs) p \<or> js_includes cs p)"

text \<open>
  \<open>s.toLowerCase()\<close> on the code units below 256: the letters \<open>A\<close> to \<open>Z\<close>, and the
  Latin-1 capitals U+00C0 to U+00DE without the multiplication sign U+00D7.
\<close>

definition lower_char :: "char \<Rightarrow> char" where
  "lower_char c =
     (let n = (of_char c :: nat)
      in if (65 \<le> n \<and> n \<le> 90) \<or> (192 \<le> n \<and> n \<le> 222 \<and> n \<noteq> 215)
         then char_of (n + 32) else c)"

definition toLowerCase :: "string \<Rightarrow> string" where
  "toLowerCase s = map lower_char s"

text \<open>The decimal rendering of a number in a template literal.\<close>

definition digit_char :: "nat \<Rightarrow> char" where
  "digit_char d = char_of (48 + d)"

function string_of_nat :: "nat \<Rightarrow> string" where
  "string_of_nat n =
     (if n < 10 then [digit_char n]
      else string_of_nat (n div 10) @ [digit_char (n mod 10)])"
  by pat_completeness auto
termination
  by (relation "measure id") auto

text \<open>\<open>[...new Set(xs)]\<close>: the first occurrence of every element, in order.\<close>

fun set_spread :: "'a list \<Rightarrow> 'a list" where
  "set_spread [] = []"
| "set_spread (x # xs) = x # set_spread (filter (\<lambda>y. y \<noteq> x) xs)"

section \<open>The environment: network, HTML parser and URL parser\<close>

text \<open>
  The scraper calls three platform services whose code is not part of the repository:
  \<open>fetch\<close>, the HTML library \<open>cheerio\<close> and the class \<open>URL\<close>. They are parameters of
  the model.

  A fetched document is represented by the answers to the queries the scraper puts to
  it. \<open>all_anchors\<close> is the view of \<open>extractCategories\<close>, which queries the document as
  loaded: the \<open>href\<close> attribute and the text of every \<open>a[href]\<close> element, in document
  order. The other fields are the view of \<open>scrapePage\<close>, which first removes
  \<open>script, style, footer, nav, .advertisement, .ads\<close>: the text of every remaining
  \<open>title\<close> element, the text of the remaining elements matching a selector (\<open>None\<close> when
  there is no such element), the text of \<open>body\<close>, and the \<open>href\<close> and \<open>src\<close> attributes
  of the remaining \<open>a[href]\<close> and \<open>img[src]\<close> elements.
\<close>

record cheerio_doc =
  all_anchors :: "(string \<times> string) list"
  title_texts :: "string list"
  selected :: "string \<Rightarrow> string option"
  body_text :: "string"
  hrefs :: "string list"
  srcs :: "string list"

record response =
  status :: nat
  statusText :: string
  html :: cheerio_doc

text \<open>\<open>response.ok\<close>\<close>

definition ok :: "response \<Rightarrow> bool" where
  "ok r = (200 \<le> status r \<and> status r \<le> 299)"

text \<open>A thrown \<open>Error\<close>, with its \<open>message\<close>.\<close>

datatype js_error = Error (message: string)

text \<open>
  \<open>fetch env u\<close> is the outcome of \<open>fetch(u, ...)\<close> followed by \<open>response.text()\<close>: a
  rejection (network error, timeout of 10 seconds) or a response. \<open>latency env u\<close> is the
  time that outcome takes. \<open>resolve_url env href base\<close> is \<open>new URL(href, base).href\<close>
  and \<open>url_hostname env u\<close> is \<open>new URL(u).hostname\<close>; both constructors throw a
  \<open>TypeError\<close> on an invalid URL. The environment is the same throughout a run: a URL
  that is requested twice gives the same outcome twice.
\<close>

record web =
  fetch :: "string \<Rightarrow> js_error + response"
  latency :: "string \<Rightarrow> nat"
  resolve_url :: "string \<Rightarrow> string \<Rightarrow> js_error + string"
  url_hostname :: "string \<Rightarrow> js_error + string"

section \<open>ScraperService\<close>

record CrawlTarget =
  url :: string
  depth :: nat
  category :: string

text \<open>\<open>ScrapedPage\<close> has the three fields of a queue entry and five more.\<close>

record ScrapedPage = CrawlTarget +
  title :: string
  content :: string
  wordCount :: nat
  links :: "string list"
  images :: "string list"

definition contentSelectors :: "string list" where
  "contentSelectors =
     [''#page-content'', ''.content'', ''.main-content'', ''main'', ''article'',
      ''.article-body'', ''.post-content'']"

text \<open>
  The loop over \<open>contentSelectors\<close>: the text of the first selector that matches an
  element, and of \<open>body\<close> when none does.
\<close>

fun content_text :: "cheerio_doc \<Rightarrow> string list \<Rightarrow> string" where
  "content_text d [] = body_text d"
| "content_text d (s # ss) =
     (case selected d s of Some t \<Rightarrow> t | None \<Rightarrow> content_text d ss)"

text \<open>
  The \<open>each\<close> loop over \<open>a[href]\<close>: an empty \<open>href\<close> is skipped, an \<open>href\<close> that does not
  resolve throws, and a resolved URL is kept when it includes \<open>domain\<close>.
\<close>

fun extract_links :: "web \<Rightarrow> string \<Rightarrow> string \<Rightarrow> string list \<Rightarrow> js_error + string list" where
  "extract_links env base domain [] = Inr []"
| "extract_links env base domain (href # rest) =
     (if href = [] then extract_links env base domain rest
      else (case resolve_url env href base of
              Inl e \<Rightarrow> Inl e
            | Inr fullUrl \<Rightarrow>
                (case extract_links env base domain rest of
                   Inl e \<Rightarrow> Inl e
                 | Inr ls \<Rightarrow>
                     Inr (if js_includes fullUrl domain then fullUrl # ls else ls))))"

text \<open>The \<open>each\<close> loop over \<open>img[src]\<close>, which has no domain test.\<close>

fun extract_images :: "web \<Rightarrow> string \<Rightarrow> string list \<Rightarrow> js_error + string list" where
  "extract_images env base [] = Inr []"
| "extract_images env base (src # rest) =
     (if src = [] then extract_images env base rest
      else (case resolve_url env src base of
              Inl e \<Rightarrow> Inl e
            | Inr fullUrl \<Rightarrow>
                (case extract_images env base rest of
                   Inl e \<Rightarrow> Inl e
                 | Inr is \<Rightarrow> Inr (fullUrl # is))))"

text \<open>The body of the \<open>try\<close> block of \<open>scrapePage\<close>: \<open>Inl\<close> is the error it throws.\<close>

definition scrapePage_try ::
  "web \<Rightarrow> string \<Rightarrow> nat \<Rightarrow> string \<Rightarrow> string \<Rightarrow> js_error + ScrapedPage" where
  "scrapePage_try env u d domain cat =
     (case fetch env u of
        Inl e \<Rightarrow> Inl e
      | Inr r \<Rightarrow>
          if \<not> ok r
          then Inl (Error (''HTTP '' @ string_of_nat (status r) @ '': '' @ statusText r))
          else
            let doc = html r;
                t = trim (concat (title_texts doc));
                ttl = (if t = [] then u else t);
                cont = trim (collapse_ws (content_text doc contentSelectors));
                wc = length (split_on CHR '' '' cont)
            in (case extract_links env u domain (hrefs doc) of
                  Inl e \<Rightarrow> Inl e
                | Inr ls \<Rightarrow>
                    (case extract_images env u (srcs doc) of
                       Inl e \<Rightarrow> Inl e
                     | Inr is \<Rightarrow>
                         Inr \<lparr>url = u, depth = d, category = cat, title = ttl,
                              content = cont, wordCount = wc,
                              links = set_spread ls, images = set_spread is\<rparr>)))"

text \<open>
  \<open>scrapePage\<close>: the \<open>catch\<close> clause writes the error to the console and returns
  \<open>null\<close>.
\<close>

definition scrapePage ::
  "web \<Rightarrow> string \<Rightarrow> nat \<Rightarrow> string \<Rightarrow> string \<Rightarrow> ScrapedPage option" where
  "scrapePage env u d domain cat =
     (case scrapePage_try env u d domain cat of
        Inl e \<Rightarrow> None
      | Inr p \<Rightarrow> Some p)"

definition getDomain :: "web \<Rightarrow> string \<Rightarrow> string" where
  "getDomain env u = (case url_hostname env u of Inl e \<Rightarrow> [] | Inr h \<Rightarrow> h)"

text \<open>\<open>sanitizeFilename\<close>: each of \<open>\ / * ? : " < > |\<close> becomes an underscore.\<close>

definition sanitizeFilename :: "string \<Rightarrow> string" where
  "sanitizeFilename name =
     map (\<lambda>c. if c \<in> {CHR 0x5C, CHR 0x2F, CHR 0x2A, CHR 0x3F, CHR 0x3A, CHR 0x22,
                          CHR 0x3C, CHR 0x3E, CHR 0x7C}
              then CHR ''_'' else c) name"

subsection \<open>The \<open>categories\<close> object\<close>

text \<open>
  \<open>categories\<close> is a plain object used as a dictionary: its own properties in creation
  order. An assignment to an existing key replaces the value and keeps the place. An
  assignment to the key \<open>__proto__\<close> calls the setter that the object inherits from
  \<open>Object.prototype\<close>; the setter ignores a string and no property is created.
\<close>

fun set_property :: "string \<Rightarrow> 'v \<Rightarrow> (string \<times> 'v) list \<Rightarrow> (string \<times> 'v) list" where
  "set_property k v [] = [(k, v)]"
| "set_property k v ((k', v') # ps) =
     (if k' = k then (k, v) # ps else (k', v') # set_property k v ps)"

definition assign :: "string \<Rightarrow> 'v \<Rightarrow> (string \<times> 'v) list \<Rightarrow> (string \<times> 'v) list" where
  "assign k v obj = (if k = ''__proto__'' then obj else set_property k v obj)"

text \<open>
  \<open>Object.entries\<close> lists the array-index keys first, in ascending numeric order, and
  then the other keys in creation order. An array index is the canonical decimal
  numeral of a number below \<open>2^32 - 1\<close>.
\<close>

definition is_digit :: "char \<Rightarrow> bool" where
  "is_digit c = (48 \<le> (of_char c :: nat) \<and> (of_char c :: nat) \<le> 57)"

definition nat_of_digits :: "string \<Rightarrow> nat" where
  "nat_of_digits s = foldl (\<lambda>n c. 10 * n + ((of_char c :: nat) - 48)) 0 s"

definition is_array_index :: "string \<Rightarrow> bool" where
  "is_array_index k =
     (k \<noteq> [] \<and> list_all is_digit k \<and> (k = ''0'' \<or> hd k \<noteq> CHR ''0'')
      \<and> nat_of_digits k < 4294967295)"

definition object_entries :: "(string \<times> 'v) list \<Rightarrow> (string \<times> 'v) list" where
  "object_entries obj =
     sort_key (\<lambda>p. nat_of_digits (fst p)) (filter (\<lambda>p. is_array_index (fst p)) obj)
     @ filter (\<lambda>p. \<not> is_array_index (fst p)) obj"

subsection \<open>\<open>extractCategories\<close>\<close>

text \<open>
  The \<open>each\<close> loop of \<open>extractCategories\<close> over every \<open>a[href]\<close> of the document: the
  pairs added to \<open>allLinks\<close>. \<open>allLinks\<close> is a \<open>Set\<close> of freshly built arrays, which are
  never equal to one another, so it keeps every pair.
\<close>

fun category_links ::
  "web \<Rightarrow> string \<Rightarrow> string \<Rightarrow> (string \<times> string) list \<Rightarrow> js_error + (string \<times> string) list" where
  "category_links env baseUrl domain [] = Inr []"
| "category_links env baseUrl domain ((href, txt) # rest) =
     (let t = trim txt
      in if href \<noteq> [] \<and> t \<noteq> [] \<and> \<not> starts_with (toLowerCase t) ''edit''
         then (case resolve_url env href baseUrl of
                 Inl e \<Rightarrow> Inl e
               | Inr fullUrl \<Rightarrow>
                   (case category_links env baseUrl domain rest of
                      Inl e \<Rightarrow> Inl e
                    | Inr ps \<Rightarrow>
                        Inr (if js_includes fullUrl domain then (t, fullUrl) # ps else ps)))
         else category_links env baseUrl domain rest)"

text \<open>The \<open>forEach\<close> that fills \<open>categories\<close>.\<close>

definition fill_categories :: "(string \<times> string) list \<Rightarrow> (string \<times> string) list" where
  "fill_categories allLinks =
     fold (\<lambda>(t, link) categories.
             let s = sanitizeFilename t;
                 cleanText = (if s = [] then ''misc'' else s)
             in assign cleanText link categories) allLinks []"

text \<open>
  \<open>extractCategories\<close> reads the body whatever the status of the response, and its
  \<open>catch\<close> clause returns the empty object.
\<close>

definition extractCategories :: "web \<Rightarrow> string \<Rightarrow> string \<Rightarrow> (string \<times> string) list" where
  "extractCategories env baseUrl domain =
     (case fetch env baseUrl of
        Inl e \<Rightarrow> []
      | Inr r \<Rightarrow>
          (case category_links env baseUrl domain (all_anchors (html r)) of
             Inl e \<Rightarrow> []
           | Inr allLinks \<Rightarrow> fill_categories allLinks))"

subsection \<open>\<open>scrapeWebsite\<close>\<close>

text \<open>
  The limits of \<open>ScrapingConfig\<close> are JavaScript numbers, which the request schema
  bounds (\<open>maxDepth\<close> from 1 to 5, \<open>maxWorkers\<close> from 1 to 50, \<open>delay\<close> from 0 to 10000)
  but does not require to be whole; they are rationals here. The four switches of the
  language processing are not read by the scraper and are left out.
\<close>

record ScrapingConfig =
  targetUrl :: string
  maxDepth :: rat
  maxWorkers :: rat
  delay :: rat

datatype progress_status = success | error

text \<open>The argument of \<open>onProgress\<close>.\<close>

record ProgressSnapshot =
  progress_url :: string
  progress_status :: progress_status
  totalProcessed :: nat
  progress_message :: string

text \<open>
  What a run does that can be observed from outside, in the order in which it happens:
  the request of \<open>extractCategories\<close>, a call of \<open>scrapePage\<close> for a queue entry (a fetch
  attempt), a call of \<open>onProgress\<close>, and a page handed over by \<open>yield\<close>.
\<close>

datatype event =
    Discover string
  | Fetch CrawlTarget
  | Progress ProgressSnapshot
  | Yield ScrapedPage

text \<open>The local variables of \<open>scrapeWebsite\<close>, and the events so far.\<close>

record run_state =
  seen :: "string set"
  queue :: "CrawlTarget list"
  processed :: nat
  trace :: "event list"

text \<open>
  \<open>if (!seen.has(link)) { seen.add(link); queue.push({ url: link, depth, category }) }\<close>,
  which the seeding and the link loop share.
\<close>

definition offer :: "nat \<Rightarrow> string \<Rightarrow> string \<Rightarrow> run_state \<Rightarrow> run_state" where
  "offer d cat link st =
     (if link \<in> seen st then st
      else st\<lparr>seen := insert link (seen st),
              queue := queue st @ [\<lparr>url = link, depth = d, category = cat\<rparr>]\<rparr>)"

definition emit :: "event \<Rightarrow> run_state \<Rightarrow> run_state" where
  "emit e st = st\<lparr>trace := trace st @ [e]\<rparr>"

text \<open>
  The part of a task of the batch that runs when its \<open>scrapePage\<close> has settled; it
  contains no \<open>await\<close>, so it runs without interruption. The result is the value of the
  task's promise. Nothing throws inside the \<open>try\<close> block of the task: \<open>scrapePage\<close>
  catches every error itself and never rejects, and the callback that \<open>routes.ts\<close> passes
  as \<open>onProgress\<close> assigns counters, calls the asynchronous \<open>storage.updateProject\<close>
  without awaiting it and sends a message to the open sockets. So the \<open>catch\<close> clause
  of the task, which would raise the counter and report an error with the message of
  the exception, is never entered, and it has no counterpart here. A call of
  \<open>onProgress\<close> is recorded as an event.
\<close>

definition settle ::
  "web \<Rightarrow> ScrapingConfig \<Rightarrow> string \<Rightarrow> CrawlTarget \<Rightarrow> run_state
     \<Rightarrow> ScrapedPage option \<times> run_state" where
  "settle env cfg domain t st =
     (case scrapePage env (url t) (depth t) domain (category t) of
        Some result \<Rightarrow>
          let st1 = st\<lparr>processed := processed st + 1\<rparr>;
              st2 = emit (Progress \<lparr>progress_url = url t, progress_status = success,
                         totalProcessed = processed st1,
                         progress_message =
                           ''Found '' @ string_of_nat (length (links result)) @ '' links, ''
                           @ string_of_nat (wordCount result) @ '' words''\<rparr>) st1;
              st3 = (if of_nat (depth t) < maxDepth cfg
                     then fold (offer (depth t + 1) (category t)) (links result) st2
                     else st2)
          in (Some result, st3)
      | None \<Rightarrow>
          let st1 = st\<lparr>processed := processed st + 1\<rparr>;
              st2 = emit (Progress \<lparr>progress_url = url t, progress_status = error,
                         totalProcessed = processed st1,
                         progress_message = ''Failed to scrape page''\<rparr>) st1
          in (None, st2))"

text \<open>
  The tasks of a batch start together, each after the same \<open>delay\<close>, and a task settles
  when its request has taken its time: the positions of the batch in the order of their
  latencies, equal latencies in the order of the batch.
\<close>

definition settle_order :: "web \<Rightarrow> CrawlTarget list \<Rightarrow> nat list" where
  "settle_order env batch =
     sort_key (\<lambda>i. latency env (url (batch ! i))) [0..<length batch]"

text \<open>
  \<open>Promise.all(promises)\<close>: the tasks settle in their order, each acting on the state,
  and the value of the task at position \<open>i\<close> is stored at position \<open>i\<close> of the result.
\<close>

definition promise_all ::
  "web \<Rightarrow> ScrapingConfig \<Rightarrow> string \<Rightarrow> CrawlTarget list \<Rightarrow> run_state
     \<Rightarrow> ScrapedPage option list \<times> run_state" where
  "promise_all env cfg domain batch st =
     fold (\<lambda>i (results, s).
             let (r, s') = settle env cfg domain (batch ! i) s
             in (results[i := r], s'))
          (settle_order env batch) (replicate (length batch) None, st)"

text \<open>
  \<open>queue.splice(0, config.maxWorkers)\<close> removes as many entries as the integer part of
  \<open>maxWorkers\<close>, none when that is negative.
\<close>

definition batch_size :: "ScrapingConfig \<Rightarrow> nat" where
  "batch_size cfg = nat \<lfloor>maxWorkers cfg\<rfloor>"

text \<open>One turn of the \<open>while\<close> loop.\<close>

definition run_batch :: "web \<Rightarrow> ScrapingConfig \<Rightarrow> string \<Rightarrow> run_state \<Rightarrow> run_state" where
  "run_batch env cfg domain st =
     (let batch = take (batch_size cfg) (queue st);
          st0 = st\<lparr>queue := drop (batch_size cfg) (queue st),
                   trace := trace st @ map Fetch batch\<rparr>;
          (results, st1) = promise_all env cfg domain batch st0
      in st1\<lparr>trace := trace st1 @ map Yield (List.map_filter id results)\<rparr>)"

text \<open>
  The \<open>while\<close> loop. It need not end: with a batch size of 0 no entry ever leaves the
  queue. \<open>None\<close> is a run that does not end.
\<close>

partial_function (option) crawl_loop ::
  "web \<Rightarrow> ScrapingConfig \<Rightarrow> string \<Rightarrow> run_state \<Rightarrow> run_state option" where
  "crawl_loop env cfg domain st =
     (if queue st = [] then Some st
      else crawl_loop env cfg domain (run_batch env cfg domain st))"

declare crawl_loop.simps [code]

definition seed_state :: "ScrapingConfig \<Rightarrow> (string \<times> string) list \<Rightarrow> run_state" where
  "seed_state cfg categories =
     fold (\<lambda>(cat, u). offer 0 cat u) (object_entries categories)
       \<lparr>seen = {}, queue = [], processed = 0, trace = [Discover (targetUrl cfg)]\<rparr>"

text \<open>The generator \<open>scrapeWebsite\<close>, run to its end: the final state with all events.\<close>

definition scrapeWebsite :: "web \<Rightarrow> ScrapingConfig \<Rightarrow> run_state option" where
  "scrapeWebsite env cfg =
     (let domain = getDomain env (targetUrl cfg);
          categories = extractCategories env (targetUrl cfg) domain
      in crawl_loop env cfg domain (seed_state cfg categories))"

section \<open>The background job of \<open>/api/scrape/start\<close>\<close>

datatype project_status = pending | running | completed | failed

text \<open>The fields of a stored \<open>Project\<close> that the job writes.\<close>

record Project =
  project_status :: project_status
  processedUrls :: nat
  successfulUrls :: nat
  failedUrls :: nat

text \<open>
  The three counters local to the job, the stored project, and the pages for which the
  body of the \<open>for await\<close> loop has run to its end.
\<close>

record job =
  processedCount :: nat
  successCount :: nat
  errorCount :: nat
  project :: Project
  saved :: "ScrapedPage list"

text \<open>
  The callback handed to \<open>scrapeWebsite\<close>. \<open>storage.updateProject\<close> of the in-memory
  store has no \<open>await\<close> in its body, so the project is written during the call.
\<close>

definition on_progress :: "ProgressSnapshot \<Rightarrow> job \<Rightarrow> job" where
  "on_progress p j =
     (let j1 = j\<lparr>processedCount := totalProcessed p\<rparr>;
          j2 = (if progress_status p = success
                then j1\<lparr>successCount := successCount j1 + 1\<rparr>
                else j1\<lparr>errorCount := errorCount j1 + 1\<rparr>)
      in j2\<lparr>project := (project j2)\<lparr>processedUrls := processedCount j2,
                                      successfulUrls := successCount j2,
                                      failedUrls := errorCount j2\<rparr>\<rparr>)"

text \<open>
  The job consumes the generator: each call of \<open>onProgress\<close> runs the callback, each
  yielded page runs the body of the loop. The body (storing the document, extracting and
  storing entities and relationships) lies outside the crawler; \<open>body p\<close> is the error
  it throws for page \<open>p\<close>, if any. An error leaves the loop, and the generator is not
  resumed: the events after it do not happen.
\<close>

fun consume ::
  "(ScrapedPage \<Rightarrow> js_error option) \<Rightarrow> event list \<Rightarrow> job \<Rightarrow> js_error option \<times> job" where
  "consume body [] j = (None, j)"
| "consume body (Progress p # es) j = consume body es (on_progress p j)"
| "consume body (Yield p # es) j =
     (case body p of
        Some e \<Rightarrow> (Some e, j)
      | None \<Rightarrow> consume body es (j\<lparr>saved := saved j @ [p]\<rparr>))"
| "consume body (e # es) j = consume body es j"

definition new_job :: job where
  "new_job =
     \<lparr>processedCount = 0, successCount = 0, errorCount = 0,
      project = \<lparr>project_status = running, processedUrls = 0, successfulUrls = 0,
                 failedUrls = 0\<rparr>,
      saved = []\<rparr>"

definition set_status :: "project_status \<Rightarrow> job \<Rightarrow> job" where
  "set_status s j = j\<lparr>project := (project j)\<lparr>project_status := s\<rparr>\<rparr>"

text \<open>
  The job from start to end: \<open>completed\<close> after the loop, \<open>failed\<close> in the \<open>catch\<close>
  clause around it. \<open>None\<close> is a job whose crawl does not end.
\<close>

definition scrape_job ::
  "web \<Rightarrow> (ScrapedPage \<Rightarrow> js_error option) \<Rightarrow> ScrapingConfig \<Rightarrow> job option" where
  "scrape_job env body cfg =
     (case scrapeWebsite env cfg of
        None \<Rightarrow> None
      | Some st \<Rightarrow>
          (case consume body (trace st) new_job of
             (None, j) \<Rightarrow> Some (set_status completed j)
           | (Some e, j) \<Rightarrow> Some (set_status failed j)))"

section \<open>Notions used in the statements and proofs\<close>

text \<open>The fetch attempts, the progress reports and the yielded pages of a sequence of events.\<close>

fun fetched :: "event list \<Rightarrow> CrawlTarget list" where
  "fetched [] = []"
| "fetched (Fetch t # es) = t # fetched es"
| "fetched (e # es) = fetched es"

fun progress_events :: "event list \<Rightarrow> ProgressSnapshot list" where
  "progress_events [] = []"
| "progress_events (Progress p # es) = p # progress_events es"
| "progress_events (e # es) = progress_events es"

fun yielded :: "event list \<Rightarrow> ScrapedPage list" where
  "yielded [] = []"
| "yielded (Yield p # es) = p # yielded es"
| "yielded (e # es) = yielded es"

text \<open>
  The report that the task of target \<open>t\<close> hands to \<open>onProgress\<close> when it raises the
  counter to \<open>n\<close>.
\<close>

definition snapshot :: "web \<Rightarrow> string \<Rightarrow> CrawlTarget \<Rightarrow> nat \<Rightarrow> ProgressSnapshot" where
  "snapshot env domain t n =
     (case scrapePage env (url t) (depth t) domain (category t) of
        Some result \<Rightarrow>
          \<lparr>progress_url = url t, progress_status = success, totalProcessed = n,
           progress_message =
             ''Found '' @ string_of_nat (length (links result)) @ '' links, ''
             @ string_of_nat (wordCount result) @ '' words''\<rparr>
      | None \<Rightarrow>
          \<lparr>progress_url = url t, progress_status = error, totalProcessed = n,
           progress_message = ''Failed to scrape page''\<rparr>)"

text \<open>A batch in the order in which its tasks settle.\<close>

definition settled :: "web \<Rightarrow> CrawlTarget list \<Rightarrow> CrawlTarget list" where
  "settled env batch = map ((!) batch) (settle_order env batch)"

text \<open>\<open>scrapePage\<close> applied to a queue entry.\<close>

definition scrape :: "web \<Rightarrow> string \<Rightarrow> CrawlTarget \<Rightarrow> ScrapedPage option" where
  "scrape env domain t = scrapePage env (url t) (depth t) domain (category t)"

text \<open>What a task may add to the queue.\<close>

definition child_of :: "web \<Rightarrow> ScrapingConfig \<Rightarrow> string \<Rightarrow> CrawlTarget \<Rightarrow> CrawlTarget \<Rightarrow> bool" where
  "child_of env cfg domain t x =
     (depth x = depth t + 1 \<and> category x = category t \<and> of_nat (depth t) < maxDepth cfg
      \<and> (\<exists>pg. scrape env domain t = Some pg \<and> url x \<in> set (links pg)))"

text \<open>The state after the tasks of a list of targets have settled one after the other.\<close>

definition tasks :: "web \<Rightarrow> ScrapingConfig \<Rightarrow> string \<Rightarrow> CrawlTarget list \<Rightarrow> run_state \<Rightarrow> run_state" where
  "tasks env cfg domain ts s = fold (\<lambda>t s. snd (settle env cfg domain t s)) ts s"

text \<open>The batch that the next turn of the loop takes.\<close>

definition batch_of :: "ScrapingConfig \<Rightarrow> run_state \<Rightarrow> CrawlTarget list" where
  "batch_of cfg st = take (batch_size cfg) (queue st)"

text \<open>
  The measure under which the loop ends: the number of levels that may still lie below
  a queue entry, collected over the queue.
\<close>

definition weight :: "ScrapingConfig \<Rightarrow> CrawlTarget \<Rightarrow> nat" where
  "weight cfg t = Suc (nat \<lceil>maxDepth cfg\<rceil>) - depth t"

definition queue_weight :: "ScrapingConfig \<Rightarrow> run_state \<Rightarrow> nat multiset" where
  "queue_weight cfg st = image_mset (weight cfg) (mset (queue st))"

text \<open>
  Every entry that was ever put on the queue, in the order of its arrival: the entries
  already taken and fetched, and the entries that wait.
\<close>

definition frontier :: "run_state \<Rightarrow> CrawlTarget list" where
  "frontier s = fetched (trace s) @ queue s"

text \<open>The properties that every turn of the loop keeps.\<close>

definition inv_dedup :: "run_state \<Rightarrow> bool" where
  "inv_dedup s = (distinct (map url (frontier s)) \<and> seen s = url ` set (frontier s))"

definition inv_domain :: "string \<Rightarrow> run_state \<Rightarrow> bool" where
  "inv_domain domain s = list_all (\<lambda>t. js_includes (url t) domain) (frontier s)"

text \<open>
  The state of a run after \<open>k\<close> turns of the loop. A turn on an empty queue changes
  nothing, so from the end of the loop on this is the final state.
\<close>

definition crawl_state :: "web \<Rightarrow> ScrapingConfig \<Rightarrow> nat \<Rightarrow> run_state" where
  "crawl_state env cfg k =
     ((run_batch env cfg (getDomain env (targetUrl cfg))) ^^ k)
       (seed_state cfg (extractCategories env (targetUrl cfg)
          (getDomain env (targetUrl cfg))))"

text \<open>The events of a whole run.\<close>

definition crawl_trace :: "web \<Rightarrow> ScrapingConfig \<Rightarrow> event list option" where
  "crawl_trace env cfg = map_option trace (scrapeWebsite env cfg)"

definition inv_count :: "run_state \<Rightarrow> bool" where
  "inv_count s =
     (map totalProcessed (progress_events (trace s)) = [1..<Suc (processed s)]
      \<and> processed s = length (fetched (trace s)))"


definition inv_yield :: "web \<Rightarrow> string \<Rightarrow> run_state \<Rightarrow> bool" where
  "inv_yield env d s =
     (yielded (trace s) = List.map_filter id (map (scrape env d) (fetched (trace s)))
      \<and> length (filter (\<lambda>p. progress_status p = error) (progress_events (trace s)))
          = length (filter (\<lambda>t. scrape env d t = None) (fetched (trace s))))"

text \<open>
  C4 as the spec states it: every report of a success is followed at once by the yield
  of the page it reports, and no page is yielded otherwise.
\<close>

fun yields_as_settled :: "event list \<Rightarrow> bool" where
  "yields_as_settled [] = True"
| "yields_as_settled (Progress p # es) =
     (if progress_status p = success
      then (case es of
              Yield pg # es' \<Rightarrow> url pg = progress_url p \<and> yields_as_settled es'
            | _ \<Rightarrow> False)
      else yields_as_settled es)"
| "yields_as_settled (Yield pg # es) = False"
| "yields_as_settled (e # es) = yields_as_settled es"

text \<open>The URLs of the reports of a success, in the order of the reports.\<close>

definition success_urls :: "event list \<Rightarrow> string list" where
  "success_urls es =
     map progress_url (filter (\<lambda>p. progress_status p = success) (progress_events es))"

text \<open>The counters of the job agree with each other and with the stored project.\<close>

definition job_ok :: "job \<Rightarrow> bool" where
  "job_ok j =
     (processedCount j = successCount j + errorCount j
      \<and> processedUrls (project j) = processedCount j
      \<and> successfulUrls (project j) = successCount j
      \<and> failedUrls (project j) = errorCount j)"

definition inv_depth :: "nat \<Rightarrow> run_state \<Rightarrow> bool" where
  "inv_depth D s = list_all (\<lambda>t. depth t \<le> D) (frontier s)"

text \<open>
  The number of tokens of a string that whitespace separates: the number of places
  where a character that is no whitespace stands at the start or after whitespace.
  \<open>inside\<close> says that the character before was no whitespace.
\<close>

fun token_starts :: "bool \<Rightarrow> string \<Rightarrow> nat" where
  "token_starts inside [] = 0"
| "token_starts inside (c # cs) =
     (if is_space c then token_starts False cs
      else (if inside then 0 else 1) + token_starts True cs)"

definition token_count :: "string \<Rightarrow> nat" where
  "token_count s = token_starts False s"

text \<open>Single spaces are the only whitespace, and no two of them are adjacent.\<close>

fun collapsed :: "string \<Rightarrow> bool" where
  "collapsed [] = True"
| "collapsed [x] = (is_space x \<longrightarrow> x = CHR '' '')"
| "collapsed (x # y # zs) =
     ((is_space x \<longrightarrow> x = CHR '' '' \<and> \<not> is_space y) \<and> collapsed (y # zs))"

text \<open>Tokens with single spaces between them.\<close>

fun spaced :: "string \<Rightarrow> bool" where
  "spaced [] = False"
| "spaced [x] = (\<not> is_space x)"
| "spaced (x # y # zs) =
     (\<not> is_space x \<and> (if is_space y then y = CHR '' '' \<and> spaced zs else spaced (y # zs)))"

text \<open>
  The URLs of the requests of a sequence of events, in their order: the request of
  \<open>extractCategories\<close> and the requests of \<open>scrapePage\<close>.
\<close>

fun requested :: "event list \<Rightarrow> string list" where
  "requested [] = []"
| "requested (Discover u # es) = u # requested es"
| "requested (Fetch t # es) = url t # requested es"
| "requested (e # es) = requested es"


section \<open>A small site\<close>

text \<open>
  A site of five pages and one page on a foreign host, used to run the definitions.
  Every \<open>href\<close> in it is an absolute URL in normal form, which \<open>URL\<close> resolves to itself,
  and \<open>url_hostname\<close> lists the host names of the URLs that occur.
\<close>

definition blank_doc :: cheerio_doc where
  "blank_doc =
     \<lparr>all_anchors = [], title_texts = [], selected = (\<lambda>s. None), body_text = [],
      hrefs = [], srcs = []\<rparr>"

definition ex_page :: "string list \<Rightarrow> string \<Rightarrow> string list \<Rightarrow> js_error + response" where
  "ex_page ts b hs =
     Inr \<lparr>status = 200, statusText = ''OK'',
          html = blank_doc\<lparr>title_texts := ts, body_text := b, hrefs := hs\<rparr>\<rparr>"

definition ex_fetch :: "string \<Rightarrow> js_error + response" where
  "ex_fetch u =
     (if u = ''https://ex.test/'' then
        Inr \<lparr>status = 200, statusText = ''OK'',
             html = blank_doc
               \<lparr>all_anchors :=
                  [(''https://ex.test/a'', ''Alpha''), (''https://ex.test/b'', '' Beta ''),
                   (''https://evil.test/?ref=ex.test'', ''Partner''),
                   (''https://other.test/'', ''Other'')],
                title_texts := [''Home''], body_text := ''Welcome  home'',
                hrefs := [''https://ex.test/a'', ''https://ex.test/b'',
                          ''https://evil.test/?ref=ex.test'', ''https://other.test/'']\<rparr>\<rparr>
      else if u = ''https://ex.test/a'' then
        Inr \<lparr>status = 500, statusText = ''Internal Server Error'', html = blank_doc\<rparr>
      else if u = ''https://ex.test/b'' then
        ex_page ['' Beta page ''] ''hello   world''
          [''https://ex.test/'', ''https://ex.test/c'', ''https://ex.test/a'',
           ''https://other.test/'']
      else if u = ''https://ex.test/c'' then
        ex_page [] [] [''https://ex.test/d'']
      else if u = ''https://ex.test/d'' then
        ex_page [''D''] ''deep'' [''https://ex.test/e'']
      else if u = ''https://evil.test/?ref=ex.test'' then
        ex_page [''Evil''] ''x'' []
      else Inl (Error ''fetch failed''))"

definition ex_web :: web where
  "ex_web =
     \<lparr>fetch = ex_fetch,
      latency = (\<lambda>u. if u = ''https://ex.test/a'' then 5
                      else if u = ''https://evil.test/?ref=ex.test'' then 7 else 1),
      resolve_url = (\<lambda>href base. Inr href),
      url_hostname = (\<lambda>u.
         if u = ''https://evil.test/?ref=ex.test'' then Inr ''evil.test''
         else if u = ''https://other.test/'' then Inr ''other.test''
         else if starts_with u ''https://ex.test/'' then Inr ''ex.test''
         else Inl (Error ''Invalid URL''))\<rparr>"

definition ex_cfg :: ScrapingConfig where
  "ex_cfg = \<lparr>targetUrl = ''https://ex.test/'', maxDepth = 1, maxWorkers = 2, delay = 0\<rparr>"

definition ex_cfg_frac :: ScrapingConfig where
  "ex_cfg_frac = \<lparr>targetUrl = ''https://ex.test/'', maxDepth = 3 / 2, maxWorkers = 2, delay = 0\<rparr>"

definition ex_trace :: "event list" where
  "ex_trace =
     [Discover ''https://ex.test/'',
      Fetch \<lparr>url = ''https://ex.test/a'', depth = 0, category = ''Alpha''\<rparr>,
      Fetch \<lparr>url = ''https://ex.test/b'', depth = 0, category = ''Beta''\<rparr>,
      Progress \<lparr>progress_url = ''https://ex.test/b'', progress_status = success,
                totalProcessed = 1, progress_message = ''Found 3 links, 2 words''\<rparr>,
      Progress \<lparr>progress_url = ''https://ex.test/a'', progress_status = error,
                totalProcessed = 2, progress_message = ''Failed to scrape page''\<rparr>,
      Yield \<lparr>url = ''https://ex.test/b'', depth = 0, category = ''Beta'',
             title = ''Beta page'', content = ''hello world'', wordCount = 2,
             links = [''https://ex.test/'', ''https://ex.test/c'', ''https://ex.test/a''],
             images = []\<rparr>,
      Fetch \<lparr>url = ''https://evil.test/?ref=ex.test'', depth = 0, category = ''Partner''\<rparr>,
      Fetch \<lparr>url = ''https://ex.test/'', depth = 1, category = ''Beta''\<rparr>,
      Progress \<lparr>progress_url = ''https://ex.test/'', progress_status = success,
                totalProcessed = 3, progress_message = ''Found 3 links, 2 words''\<rparr>,
      Progress \<lparr>progress_url = ''https://evil.test/?ref=ex.test'',
                progress_status = success, totalProcessed = 4,
                progress_message = ''Found 0 links, 1 words''\<rparr>,
      Yield \<lparr>url = ''https://evil.test/?ref=ex.test'', depth = 0, category = ''Partner'',
             title = ''Evil'', content = ''x'', wordCount = 1, links = [], images = []\<rparr>,
      Yield \<lparr>url = ''https://ex.test/'', depth = 1, category = ''Beta'',
             title = ''Home'', content = ''Welcome home'', wordCount = 2,
             links = [''https://ex.test/a'', ''https://ex.test/b'',
                      ''https://evil.test/?ref=ex.test''],
             images = []\<rparr>,
      Fetch \<lparr>url = ''https://ex.test/c'', depth = 1, category = ''Beta''\<rparr>,
      Progress \<lparr>progress_url = ''https://ex.test/c'', progress_status = success,
                totalProcessed = 5, progress_message = ''Found 1 links, 1 words''\<rparr>,
      Yield \<lparr>url = ''https://ex.test/c'', depth = 1, category = ''Beta'',
             title = ''https://ex.test/c'', content = [], wordCount = 1,
             links = [''https://ex.test/d''], images = []\<rparr>]"

definition ex_trace_frac :: "event list" where
  "ex_trace_frac =
     ex_trace @
     [Fetch \<lparr>url = ''https://ex.test/d'', depth = 2, category = ''Beta''\<rparr>,
      Progress \<lparr>progress_url = ''https://ex.test/d'', progress_status = success,
                totalProcessed = 6, progress_message = ''Found 1 links, 1 words''\<rparr>,
      Yield \<lparr>url = ''https://ex.test/d'', depth = 2, category = ''Beta'',
             title = ''D'', content = ''deep'', wordCount = 1,
             links = [''https://ex.test/e''], images = []\<rparr>]"

text \<open>The small site with every page but the first one unreachable.\<close>

definition ex_web_down :: web where
  "ex_web_down =
     ex_web\<lparr>fetch := (\<lambda>u. if u = ''https://ex.test/'' then ex_fetch u
                          else Inl (Error ''ECONNREFUSED''))\<rparr>"

definition ex_trace_down :: "event list" where
  "ex_trace_down =
     [Discover ''https://ex.test/'',
      Fetch \<lparr>url = ''https://ex.test/a'', depth = 0, category = ''Alpha''\<rparr>,
      Fetch \<lparr>url = ''https://ex.test/b'', depth = 0, category = ''Beta''\<rparr>,
      Progress \<lparr>progress_url = ''https://ex.test/b'', progress_status = error,
                totalProcessed = 1, progress_message = ''Failed to scrape page''\<rparr>,
      Progress \<lparr>progress_url = ''https://ex.test/a'', progress_status = error,
                totalProcessed = 2, progress_message = ''Failed to scrape page''\<rparr>,
      Fetch \<lparr>url = ''https://evil.test/?ref=ex.test'', depth = 0, category = ''Partner''\<rparr>,
      Progress \<lparr>progress_url = ''https://evil.test/?ref=ex.test'', progress_status = error,
                totalProcessed = 3, progress_message = ''Failed to scrape page''\<rparr>]"

text \<open>A loop body that throws for the first page of the site and for no other page.\<close>

definition ex_body :: "ScrapedPage \<Rightarrow> js_error option" where
  "ex_body p = (if url p = ''https://ex.test/'' then Some (Error ''storage failed'') else None)"

text \<open>
  The small site with one more page, whose \<open>title\<close> elements hold nothing but
  whitespace: a space, a tab and a no-break space.
\<close>

definition ex_web_blank :: web where
  "ex_web_blank =
     ex_web\<lparr>fetch := (\<lambda>u. if u = ''https://ex.test/blank''
                          then ex_page ['' '', [CHR 0x09, CHR 0xA0]] ''text'' []
                          else ex_fetch u)\<rparr>"


section \<open>Properties of \<open>scrapePage\<close> and \<open>getDomain\<close>\<close>

lemma scrapePage_SomeD:
  assumes "scrapePage env u d domain cat = Some p"
  shows "\<exists>r ls is.
           fetch env u = Inr r \<and> ok r
           \<and> extract_links env u domain (hrefs (html r)) = Inr ls
           \<and> extract_images env u (srcs (html r)) = Inr is
           \<and> url p = u \<and> depth p = d \<and> category p = cat
           \<and> title p = (if trim (concat (title_texts (html r))) = [] then u
                         else trim (concat (title_texts (html r))))
           \<and> content p = trim (collapse_ws (content_text (html r) contentSelectors))
           \<and> wordCount p = length (split_on CHR '' '' (content p))
           \<and> links p = set_spread ls \<and> images p = set_spread is"
  using assms
  by (auto simp: scrapePage_def scrapePage_try_def Let_def split: sum.splits if_splits)

lemma split_on_nonempty: "split_on sep s \<noteq> []"
  by (induction s) (auto split: list.splits)

lemma wordCount_positive:
  assumes "scrapePage env u d domain cat = Some p"
  shows "wordCount p = length (split_on CHR '' '' (content p)) \<and> 0 < wordCount p"
  using scrapePage_SomeD[OF assms] split_on_nonempty[of "CHR '' ''" "content p"]
  by auto

text \<open>
  C8. The word count of a page is the length of \<open>content.split(' ')\<close>, and that array
  has one element, the empty string, when the cleaned text is empty: the page
  \<open>https://ex.test/c\<close>, whose body has no text, is scraped with an empty \<open>content\<close> and
  a \<open>wordCount\<close> of 1, not 0. No page has a \<open>wordCount\<close> of 0 (\<open>wordCount_positive\<close>);
  when the cleaned text is not empty, the count is the number of its tokens
  (\<open>wordCount_tokens\<close>).
\<close>

theorem C8_empty_page_counts_one_word:
  "map_option (\<lambda>p. (content p, wordCount p))
     (scrapePage ex_web ''https://ex.test/c'' 1 ''ex.test'' ''Beta'') = Some ([], 1)"
  by code_simp

lemma starts_with_Nil: "starts_with s []"
  by (cases s) simp_all

lemma js_includes_Nil: "js_includes s []"
  by (cases s) (simp_all add: starts_with_Nil)

lemma extract_links_Nil_domain: "extract_links env base [] hs = extract_images env base hs"
  by (induction hs) (auto simp: js_includes_Nil split: sum.splits)

text \<open>
  C9. \<open>getDomain\<close> returns the host name when \<open>URL\<close> accepts its argument and the empty
  string when \<open>URL\<close> throws. Every string includes the empty string, so with the empty
  string as domain the link loop keeps every link that resolves: it does what the
  image loop does, which has no domain test.
\<close>

theorem C9_getDomain_total:
  "(\<forall>h. url_hostname env u = Inr h \<longrightarrow> getDomain env u = h)
   \<and> (\<forall>e. url_hostname env u = Inl e \<longrightarrow> getDomain env u = [])
   \<and> (getDomain env u = [] \<longrightarrow>
        (\<forall>fullUrl. js_includes fullUrl (getDomain env u))
        \<and> (\<forall>base hs. extract_links env base (getDomain env u) hs
                        = extract_images env base hs))"
  by (simp add: getDomain_def js_includes_Nil extract_links_Nil_domain)

text \<open>
  For C9 on the small site: a URL with its host name, a string that is no URL, and the
  link loop with the empty string as domain, which keeps a link to a foreign host.
\<close>

theorem C9_getDomain_total_witness:
  "url_hostname ex_web ''https://ex.test/a'' = Inr ''ex.test''
   \<and> getDomain ex_web ''https://ex.test/a'' = ''ex.test''
   \<and> url_hostname ex_web ''ex.test'' = Inl (Error ''Invalid URL'')
   \<and> getDomain ex_web ''ex.test'' = []
   \<and> js_includes ''https://other.test/'' (getDomain ex_web ''ex.test'')
   \<and> extract_links ex_web ''https://ex.test/b'' (getDomain ex_web ''ex.test'')
        [''https://ex.test/c'', ''https://other.test/'']
      = Inr [''https://ex.test/c'', ''https://other.test/'']"
proof -
  have h1: "url_hostname ex_web ''https://ex.test/a'' = Inr ''ex.test''"
    by (simp add: ex_web_def)
  have h2: "url_hostname ex_web ''ex.test'' = Inl (Error ''Invalid URL'')"
    by (simp add: ex_web_def)
  have i: "extract_images ex_web ''https://ex.test/b''
             [''https://ex.test/c'', ''https://other.test/'']
           = Inr [''https://ex.test/c'', ''https://other.test/'']"
    by (simp add: ex_web_def)
  from C9_getDomain_total[of ex_web "''https://ex.test/a''"] h1
  have a: "getDomain ex_web ''https://ex.test/a'' = ''ex.test''" by blast
  from C9_getDomain_total[of ex_web "''ex.test''"] h2
  have b: "getDomain ex_web ''ex.test'' = []" by blast
  with C9_getDomain_total[of ex_web "''ex.test''"]
  have c: "js_includes ''https://other.test/'' (getDomain ex_web ''ex.test'')"
    and d: "extract_links ex_web ''https://ex.test/b'' (getDomain ex_web ''ex.test'')
              [''https://ex.test/c'', ''https://other.test/'']
            = extract_images ex_web ''https://ex.test/b''
              [''https://ex.test/c'', ''https://other.test/'']"
    by blast+
  show ?thesis using h1 h2 a b c d i by simp
qed

subsection \<open>The word count and the tokens of the text\<close>

lemma is_space_space [simp]: "is_space CHR '' ''"
  by (simp add: is_space_def)

lemma token_starts_skip:
  "token_starts False (dropWhile is_space s) = token_starts False s"
  by (induction s) simp_all

lemma token_starts_collapse: "token_starts w (collapse_ws s) = token_starts w s"
proof (induction s arbitrary: w rule: collapse_ws.induct)
  case 1
  show ?case by simp
next
  case (2 c cs)
  show ?case
  proof (cases "is_space c")
    case True
    with 2(1)[OF True, of False] show ?thesis
      by (simp add: token_starts_skip)
  next
    case False
    with 2(2)[OF False, of True] show ?thesis by simp
  qed
qed

lemma token_starts_spaces: "list_all is_space zs \<Longrightarrow> token_starts w zs = 0"
  by (induction zs arbitrary: w) simp_all

lemma token_starts_trailing:
  "list_all is_space zs \<Longrightarrow> token_starts w (xs @ zs) = token_starts w xs"
  by (induction xs arbitrary: w) (simp_all add: token_starts_spaces)

lemma trim_split:
  "dropWhile is_space s = trim s @ rev (takeWhile is_space (rev (dropWhile is_space s)))"
proof -
  let ?t = "dropWhile is_space s"
  have "rev (takeWhile is_space (rev ?t) @ dropWhile is_space (rev ?t))
          = rev (dropWhile is_space (rev ?t)) @ rev (takeWhile is_space (rev ?t))"
    by (rule rev_append)
  then have "rev (rev ?t)
          = rev (dropWhile is_space (rev ?t)) @ rev (takeWhile is_space (rev ?t))"
    by (simp only: takeWhile_dropWhile_id)
  then show ?thesis by (simp only: rev_rev_ident trim_def)
qed

lemma token_starts_trim: "token_starts False (trim s) = token_starts False s"
proof -
  let ?z = "rev (takeWhile is_space (rev (dropWhile is_space s)))"
  have z: "list_all is_space ?z"
    by (simp add: list_all_iff) (metis set_takeWhileD)
  have "token_starts False s = token_starts False (dropWhile is_space s)"
    by (simp add: token_starts_skip)
  also have "\<dots> = token_starts False (trim s @ ?z)"
    using trim_split[of s] by simp
  also have "\<dots> = token_starts False (trim s)"
    using z by (rule token_starts_trailing)
  finally show ?thesis by simp
qed

lemma collapse_ws_head:
  "collapse_ws t = x # xs \<Longrightarrow> t \<noteq> [] \<and> (is_space x = is_space (hd t))"
  by (cases t) (auto split: if_splits)

lemma dropWhile_head: "dropWhile P t = x # xs \<Longrightarrow> \<not> P x"
  by (metis hd_dropWhile list.distinct(1) list.sel(1))

lemma collapsed_collapse: "collapsed (collapse_ws s)"
proof (induction s rule: collapse_ws.induct)
  case 1
  show ?case by simp
next
  case (2 c cs)
  show ?case
  proof (cases "is_space c")
    case True
    let ?X = "collapse_ws (dropWhile is_space cs)"
    from 2(1)[OF True] have X: "collapsed ?X" .
    show ?thesis
    proof (cases ?X)
      case Nil
      with True show ?thesis by simp
    next
      case (Cons x xs)
      from collapse_ws_head[OF Cons] have ne: "dropWhile is_space cs \<noteq> []"
        and sp: "is_space x = is_space (hd (dropWhile is_space cs))" by simp_all
      from ne have "\<not> is_space (hd (dropWhile is_space cs))" by (rule hd_dropWhile)
      with sp have "\<not> is_space x" by simp
      with X Cons True show ?thesis by simp
    qed
  next
    case False
    from 2(2)[OF False] have X: "collapsed (collapse_ws cs)" .
    show ?thesis
    proof (cases "collapse_ws cs")
      case Nil
      with False show ?thesis by simp
    next
      case (Cons x xs)
      with X False show ?thesis by simp
    qed
  qed
qed

lemma collapsed_tl: "collapsed (x # xs) \<Longrightarrow> collapsed xs"
  by (cases xs) simp_all

lemma collapsed_suffix: "collapsed (xs @ ys) \<Longrightarrow> collapsed ys"
  by (induction xs) (auto dest: collapsed_tl)

lemma collapsed_prefix: "collapsed (xs @ ys) \<Longrightarrow> collapsed xs"
proof (induction xs rule: collapsed.induct)
  case 1
  show ?case by simp
next
  case (2 x)
  then show ?case by (cases ys) simp_all
next
  case (3 x y zs)
  then show ?case by simp
qed

lemma spaced_collapsed:
  "collapsed c \<Longrightarrow> c \<noteq> [] \<Longrightarrow> \<not> is_space (hd c) \<Longrightarrow> \<not> is_space (last c) \<Longrightarrow> spaced c"
proof (induction c rule: spaced.induct)
  case 1
  then show ?case by simp
next
  case (2 x)
  then show ?case by simp
next
  case (3 x y zs)
  from 3(3) have cyz: "collapsed (y # zs)" by simp
  show ?case
  proof (cases "is_space y")
    case True
    from cyz True have y: "y = CHR '' ''" by (cases zs) simp_all
    from 3(6) True have zs: "zs \<noteq> []" by auto
    then obtain z zs' where z: "zs = z # zs'" by (cases zs) simp_all
    from cyz True z have "\<not> is_space z" by simp
    then have hd: "\<not> is_space (hd zs)" by (simp add: z)
    from 3(6) zs have last: "\<not> is_space (last zs)" by simp
    from cyz have "collapsed zs" by (rule collapsed_tl)
    from 3(1)[OF True this zs hd last] have "spaced zs" .
    with 3(5) True y show ?thesis by simp
  next
    case False
    from 3(6) have "\<not> is_space (last (y # zs))" by simp
    from 3(2)[OF False cyz _ _ this] False have "spaced (y # zs)" by simp
    with 3(5) False show ?thesis by simp
  qed
qed

lemma not_space_char: "\<not> is_space x \<Longrightarrow> x \<noteq> CHR '' ''"
  by (auto simp: is_space_def)

lemma spaced_split:
  "spaced c \<Longrightarrow>
     length (split_on CHR '' '' c) = Suc (token_starts True c)
     \<and> token_starts False c = Suc (token_starts True c)"
proof (induction c rule: spaced.induct)
  case 1
  then show ?case by simp
next
  case (2 x)
  then show ?case by (simp add: not_space_char)
next
  case (3 x y zs)
  from 3(3) have x: "\<not> is_space x" by simp
  show ?case
  proof (cases "is_space y")
    case True
    with 3(3) have y: "y = CHR '' ''" and s: "spaced zs" by simp_all
    from 3(1)[OF True s] x y show ?thesis
      by (simp add: not_space_char)
  next
    case False
    with 3(3) have s: "spaced (y # zs)" by simp
    from 3(2)[OF False s] x False show ?thesis
      by (simp add: not_space_char split: list.splits)
  qed
qed

lemma spaced_trim_collapse:
  assumes "trim (collapse_ws s) \<noteq> []"
  shows "spaced (trim (collapse_ws s))"
proof -
  let ?f = "collapse_ws s"
  let ?t = "dropWhile is_space ?f"
  let ?c = "trim ?f"
  have split: "?t = ?c @ rev (takeWhile is_space (rev ?t))" by (rule trim_split)
  have "?f = takeWhile is_space ?f @ ?t" by simp
  with collapsed_collapse[of s] have "collapsed (takeWhile is_space ?f @ ?t)" by simp
  then have "collapsed ?t" by (rule collapsed_suffix)
  with split have "collapsed (?c @ rev (takeWhile is_space (rev ?t)))" by simp
  then have c: "collapsed ?c" by (rule collapsed_prefix)
  from assms split have tne: "?t \<noteq> []" by (metis append_is_Nil_conv)
  then have "\<not> is_space (hd ?t)" by (rule hd_dropWhile)
  moreover from split assms have "hd ?t = hd ?c" by (metis hd_append2)
  ultimately have h: "\<not> is_space (hd ?c)" by simp
  have "?c = rev (dropWhile is_space (rev ?t))" by (simp add: trim_def)
  with assms have ne: "dropWhile is_space (rev ?t) \<noteq> []" by simp
  then have "\<not> is_space (hd (dropWhile is_space (rev ?t)))" by (rule hd_dropWhile)
  moreover have "last ?c = hd (dropWhile is_space (rev ?t))"
    using ne by (simp add: trim_def last_rev)
  ultimately have l: "\<not> is_space (last ?c)" by simp
  from c assms h l show ?thesis by (rule spaced_collapsed)
qed

text \<open>
  The word count of a page is the number of tokens of the text of its content element
  unless the cleaned text is empty, and then it is 1.
\<close>

lemma wordCount_tokens:
  assumes "scrapePage env u d domain cat = Some p" and "fetch env u = Inr r"
  shows "wordCount p
           = (if content p = [] then 1
              else token_count (content_text (html r) contentSelectors))"
proof -
  let ?raw = "content_text (html r) contentSelectors"
  from scrapePage_SomeD[OF assms(1)] assms(2)
  have c: "content p = trim (collapse_ws ?raw)"
    and w: "wordCount p = length (split_on CHR '' '' (content p))"
    by auto
  show ?thesis
  proof (cases "content p = []")
    case True
    with w show ?thesis by simp
  next
    case False
    with c have "spaced (trim (collapse_ws ?raw))"
      using spaced_trim_collapse[of ?raw] by simp
    from spaced_split[OF this]
    have "length (split_on CHR '' '' (content p)) = token_starts False (trim (collapse_ws ?raw))"
      by (simp add: c)
    also have "\<dots> = token_starts False ?raw"
      by (simp add: token_starts_trim token_starts_collapse)
    finally show ?thesis using False w by (simp add: token_count_def)
  qed
qed

section \<open>The effect of a batch and the end of the loop\<close>

lemma fetched_append [simp]: "fetched (xs @ ys) = fetched xs @ fetched ys"
  by (induction xs rule: fetched.induct) simp_all

lemma progress_events_append [simp]:
  "progress_events (xs @ ys) = progress_events xs @ progress_events ys"
  by (induction xs rule: progress_events.induct) simp_all

lemma yielded_append [simp]: "yielded (xs @ ys) = yielded xs @ yielded ys"
  by (induction xs rule: yielded.induct) simp_all

lemma fetched_map [simp]:
  "fetched (map Fetch ts) = ts" "fetched (map Progress ps) = []" "fetched (map Yield pgs) = []"
  by (induction ts, simp_all) (induction ps, simp_all, induction pgs, simp_all)

lemma progress_events_map [simp]:
  "progress_events (map Fetch ts) = []" "progress_events (map Progress ps) = ps"
  "progress_events (map Yield pgs) = []"
  by (induction ts, simp_all) (induction ps, simp_all, induction pgs, simp_all)

lemma yielded_map [simp]:
  "yielded (map Fetch ts) = []" "yielded (map Progress ps) = []" "yielded (map Yield pgs) = pgs"
  by (induction ts, simp_all) (induction ps, simp_all, induction pgs, simp_all)

subsection \<open>offer\<close>

lemma offer_fields [simp]:
  "processed (offer d c l s) = processed s" "trace (offer d c l s) = trace s"
  by (simp_all add: offer_def)

lemma fold_offer_fields [simp]:
  "processed (fold (offer d c) ls s) = processed s"
  "trace (fold (offer d c) ls s) = trace s"
  by (induction ls arbitrary: s) simp_all

lemma fold_offer_queue:
  "\<exists>new. queue (fold (offer d c) ls s) = queue s @ new
         \<and> distinct (map url new)
         \<and> seen (fold (offer d c) ls s) = seen s \<union> url ` set new
         \<and> (\<forall>x\<in>set new. url x \<notin> seen s \<and> url x \<in> set ls \<and> depth x = d \<and> category x = c)"
proof (induction ls arbitrary: s)
  case Nil
  show ?case by simp
next
  case (Cons l ls)
  show ?case
  proof (cases "l \<in> seen s")
    case True
    then have "offer d c l s = s" by (simp add: offer_def)
    with Cons[of s] show ?thesis by auto
  next
    case False
    let ?t = "\<lparr>url = l, depth = d, category = c\<rparr>"
    let ?s = "offer d c l s"
    have q: "queue ?s = queue s @ [?t]" and sn: "seen ?s = insert l (seen s)"
      using False by (simp_all add: offer_def)
    from Cons[of ?s] obtain new where
      n: "queue (fold (offer d c) ls ?s) = queue ?s @ new"
         "distinct (map url new)"
         "seen (fold (offer d c) ls ?s) = seen ?s \<union> url ` set new"
         "\<forall>x\<in>set new. url x \<notin> seen ?s \<and> url x \<in> set ls \<and> depth x = d \<and> category x = c"
      by blast
    have "queue (fold (offer d c) (l # ls) s) = queue s @ (?t # new)"
      using n(1) q by simp
    moreover have "distinct (map url (?t # new))"
      using n(2) n(4) sn by auto
    moreover have "seen (fold (offer d c) (l # ls) s) = seen s \<union> url ` set (?t # new)"
      using n(3) sn by auto
    moreover have "\<forall>x\<in>set (?t # new).
        url x \<notin> seen s \<and> url x \<in> set (l # ls) \<and> depth x = d \<and> category x = c"
      using n(4) sn False by auto
    ultimately show ?thesis by blast
  qed
qed

subsection \<open>settle\<close>

lemma settle_fst: "fst (settle env cfg domain t s) = scrape env domain t"
  by (simp add: settle_def scrape_def Let_def split: option.splits)

lemma settle_processed: "processed (snd (settle env cfg domain t s)) = Suc (processed s)"
  by (simp add: settle_def Let_def emit_def split: option.splits)

lemma settle_trace:
  "trace (snd (settle env cfg domain t s))
     = trace s @ [Progress (snapshot env domain t (Suc (processed s)))]"
  by (simp add: settle_def snapshot_def Let_def emit_def split: option.splits)

lemma settle_queue:
  "\<exists>new. queue (snd (settle env cfg domain t s)) = queue s @ new
         \<and> distinct (map url new)
         \<and> seen (snd (settle env cfg domain t s)) = seen s \<union> url ` set new
         \<and> (\<forall>x\<in>set new. url x \<notin> seen s \<and> child_of env cfg domain t x)"
proof (cases "scrape env domain t")
  case None
  then show ?thesis
    by (simp add: settle_def scrape_def Let_def emit_def)
next
  case (Some pg)
  show ?thesis
  proof (cases "of_nat (depth t) < maxDepth cfg")
    case False
    with Some show ?thesis
      by (simp add: settle_def scrape_def Let_def emit_def)
  next
    case True
    let ?s2 = "emit (Progress (snapshot env domain t (Suc (processed s))))
                 (s\<lparr>processed := processed s + 1\<rparr>)"
    have s': "snd (settle env cfg domain t s)
               = fold (offer (depth t + 1) (category t)) (links pg) ?s2"
      using Some True by (simp add: settle_def scrape_def snapshot_def Let_def)
    have s2: "queue ?s2 = queue s" "seen ?s2 = seen s"
      by (simp_all add: emit_def)
    from fold_offer_queue[of "depth t + 1" "category t" "links pg" ?s2]
    show ?thesis
      unfolding s' s2 child_of_def using Some True by auto
  qed
qed

subsection \<open>A sequence of tasks\<close>

lemma tasks_simps [simp]:
  "tasks env cfg domain [] s = s"
  "tasks env cfg domain (t # ts) s = tasks env cfg domain ts (snd (settle env cfg domain t s))"
  by (simp_all add: tasks_def)

lemma tasks_processed: "processed (tasks env cfg domain ts s) = processed s + length ts"
  by (induction ts arbitrary: s) (simp_all add: settle_processed)

lemma tasks_trace:
  "trace (tasks env cfg domain ts s)
     = trace s @ map Progress
         (map2 (snapshot env domain) ts [Suc (processed s) ..< Suc (processed s + length ts)])"
proof (induction ts arbitrary: s)
  case Nil
  show ?case by simp
next
  case (Cons t ts)
  have "[Suc (processed s) ..< Suc (processed s + length (t # ts))]
          = Suc (processed s) # [Suc (Suc (processed s)) ..< Suc (Suc (processed s) + length ts)]"
    by (subst upt_conv_Cons) simp_all
  then show ?case
    using Cons[of "snd (settle env cfg domain t s)"]
    by (simp add: settle_processed settle_trace)
qed

lemma disjoint_images:
  assumes "\<forall>x\<in>B. f x \<notin> f ` A"
  shows "f ` A \<inter> f ` B = {}"
proof (rule equals0I)
  fix y assume "y \<in> f ` A \<inter> f ` B"
  then have yA: "y \<in> f ` A" and yB: "y \<in> f ` B" by simp_all
  from yB obtain b where b: "b \<in> B" "y = f b" by (rule imageE)
  from assms b(1) have "f b \<notin> f ` A" by (rule bspec)
  with yA b(2) show False by simp
qed

lemma tasks_queue:
  "\<exists>new. queue (tasks env cfg domain ts s) = queue s @ new
         \<and> distinct (map url new)
         \<and> seen (tasks env cfg domain ts s) = seen s \<union> url ` set new
         \<and> (\<forall>x\<in>set new. url x \<notin> seen s \<and> (\<exists>t\<in>set ts. child_of env cfg domain t x))"
proof (induction ts arbitrary: s)
  case Nil
  show ?case by simp
next
  case (Cons t ts)
  define s1 where "s1 = snd (settle env cfg domain t s)"
  define s2 where "s2 = tasks env cfg domain ts s1"
  have s2: "tasks env cfg domain (t # ts) s = s2"
    by (simp add: s1_def s2_def)
  from settle_queue[of env cfg domain t s] obtain n1 where
    a1: "queue s1 = queue s @ n1" and a2: "distinct (map url n1)"
    and a3: "seen s1 = seen s \<union> url ` set n1"
    and a4: "\<forall>x\<in>set n1. url x \<notin> seen s \<and> child_of env cfg domain t x"
    unfolding s1_def by (elim exE conjE)
  from Cons[of s1] obtain n2 where
    b1: "queue s2 = queue s1 @ n2" and b2: "distinct (map url n2)"
    and b3: "seen s2 = seen s1 \<union> url ` set n2"
    and b4: "\<forall>x\<in>set n2. url x \<notin> seen s1 \<and> (\<exists>t\<in>set ts. child_of env cfg domain t x)"
    unfolding s2_def by (elim exE conjE)
  have c1: "queue s2 = queue s @ (n1 @ n2)"
    by (simp add: a1 b1)
  have "\<forall>x\<in>set n2. url x \<notin> url ` set n1"
    using b4 a3 by simp
  then have disj: "url ` set n1 \<inter> url ` set n2 = {}"
    by (rule disjoint_images)
  have c2: "distinct (map url (n1 @ n2))"
    using a2 b2 disj by simp
  have c3: "seen s2 = seen s \<union> url ` set (n1 @ n2)"
    by (simp add: a3 b3 image_Un Un_assoc)
  have c4: "\<forall>x\<in>set (n1 @ n2).
      url x \<notin> seen s \<and> (\<exists>t'\<in>set (t # ts). child_of env cfg domain t' x)"
  proof
    fix x assume "x \<in> set (n1 @ n2)"
    then consider "x \<in> set n1" | "x \<in> set n2" by auto
    then show "url x \<notin> seen s \<and> (\<exists>t'\<in>set (t # ts). child_of env cfg domain t' x)"
    proof cases
      case 1
      with a4 show ?thesis by simp
    next
      case 2
      with b4 have "url x \<notin> seen s1" "\<exists>t\<in>set ts. child_of env cfg domain t x"
        by simp_all
      with a3 show ?thesis by simp
    qed
  qed
  show ?case
    unfolding s2 by (intro exI[of _ "n1 @ n2"] conjI c1 c2 c3 c4)
qed

subsection \<open>Promise.all\<close>

lemma settle_order_props:
  "set (settle_order env batch) = {0..<length batch}"
  "length (settle_order env batch) = length batch"
  by (simp_all add: settle_order_def)

lemma mset_settled: "mset (settled env batch) = mset batch"
proof -
  have "mset (settled env batch) = image_mset ((!) batch) (mset (settle_order env batch))"
    by (simp add: settled_def)
  also have "mset (settle_order env batch) = mset [0..<length batch]"
    by (simp add: settle_order_def)
  also have "image_mset ((!) batch) (mset [0..<length batch]) = mset (map ((!) batch) [0..<length batch])"
    by simp
  also have "\<dots> = mset batch" by (simp add: map_nth)
  finally show ?thesis .
qed

lemma set_settled [simp]: "set (settled env batch) = set batch"
  using mset_settled[of env batch] by (metis set_mset_mset)

lemma length_settled [simp]: "length (settled env batch) = length batch"
  using mset_settled[of env batch] by (metis size_mset)

lemma fold_update_nth:
  "length rs = n \<Longrightarrow> i < n \<Longrightarrow>
     fold (\<lambda>i rs. rs[i := g i]) is rs ! i = (if i \<in> set is then g i else rs ! i)
     \<and> length (fold (\<lambda>i rs. rs[i := g i]) is rs) = n"
proof (induction "is" arbitrary: rs)
  case Nil
  then show ?case by simp
next
  case (Cons j js)
  from Cons.IH[of "rs[j := g j]"] Cons.prems show ?case
    by (auto simp: nth_list_update)
qed

lemma fold_update_all:
  assumes "length rs = n" "set is = {0..<n}"
  shows "fold (\<lambda>i rs. rs[i := g i]) is rs = map g [0..<n]"
proof (cases "n = 0")
  case True
  with assms show ?thesis by simp
next
  case False
  then have len: "length (fold (\<lambda>i rs. rs[i := g i]) is rs) = n"
    using fold_update_nth[OF assms(1), of 0 g "is"] by simp
  show ?thesis
  proof (rule nth_equalityI)
    show "length (fold (\<lambda>i rs. rs[i := g i]) is rs) = length (map g [0..<n])"
      using len by simp
  next
    fix i assume "i < length (fold (\<lambda>i rs. rs[i := g i]) is rs)"
    then have i: "i < n" using len by simp
    with fold_update_nth[OF assms(1) i, of g "is"] assms(2)
    show "fold (\<lambda>i rs. rs[i := g i]) is rs ! i = map g [0..<n] ! i"
      by simp
  qed
qed

lemma promise_all_eq:
  "promise_all env cfg domain batch st
     = (map (scrape env domain) batch, tasks env cfg domain (settled env batch) st)"
proof -
  let ?f = "\<lambda>i (results, s).
             let (r, s') = settle env cfg domain (batch ! i) s
             in (results[i := r], s')"
  have gen: "fold ?f is (rs, s)
      = (fold (\<lambda>i rs. rs[i := scrape env domain (batch ! i)]) is rs,
         tasks env cfg domain (map ((!) batch) is) s)" for "is" rs s
  proof (induction "is" arbitrary: rs s)
    case Nil
    show ?case by simp
  next
    case (Cons i "is")
    have "?f i (rs, s) = (rs[i := scrape env domain (batch ! i)],
                          snd (settle env cfg domain (batch ! i) s))"
      using settle_fst[of env cfg domain "batch ! i" s]
      by (simp add: split_def)
    then show ?case using Cons by simp
  qed
  have res: "fold (\<lambda>i rs. rs[i := scrape env domain (batch ! i)]) (settle_order env batch)
          (replicate (length batch) None)
        = map (\<lambda>i. scrape env domain (batch ! i)) [0..<length batch]"
    by (rule fold_update_all) (simp_all add: settle_order_props)
  have "map (\<lambda>i. scrape env domain (batch ! i)) [0..<length batch]
          = map (scrape env domain) (map ((!) batch) [0..<length batch])"
    by (simp only: map_map comp_def)
  then have res': "map (\<lambda>i. scrape env domain (batch ! i)) [0..<length batch]
          = map (scrape env domain) batch"
    by (simp only: map_nth)
  have "promise_all env cfg domain batch st
          = fold ?f (settle_order env batch) (replicate (length batch) None, st)"
    by (simp only: promise_all_def)
  also have "\<dots> = (fold (\<lambda>i rs. rs[i := scrape env domain (batch ! i)])
                       (settle_order env batch) (replicate (length batch) None),
                     tasks env cfg domain (map ((!) batch) (settle_order env batch)) st)"
    by (rule gen)
  finally show ?thesis
    by (simp only: res res' settled_def)
qed

lemma run_batch_eq:
  "run_batch env cfg domain st
     = (let batch = take (batch_size cfg) (queue st);
            st1 = tasks env cfg domain (settled env batch)
                    (st\<lparr>queue := drop (batch_size cfg) (queue st),
                        trace := trace st @ map Fetch batch\<rparr>)
        in st1\<lparr>trace := trace st1
                  @ map Yield (List.map_filter id (map (scrape env domain) batch))\<rparr>)"
  unfolding run_batch_def promise_all_eq Let_def by (simp only: split_conv)

lemma run_batch_processed:
  "processed (run_batch env cfg domain st) = processed st + length (batch_of cfg st)"
  by (simp add: run_batch_eq Let_def tasks_processed batch_of_def)

lemma run_batch_trace:
  "trace (run_batch env cfg domain st)
     = trace st @ map Fetch (batch_of cfg st)
       @ map Progress (map2 (snapshot env domain) (settled env (batch_of cfg st))
            [Suc (processed st) ..< Suc (processed st + length (batch_of cfg st))])
       @ map Yield (List.map_filter id (map (scrape env domain) (batch_of cfg st)))"
  by (simp add: run_batch_eq Let_def tasks_trace batch_of_def)

lemma run_batch_queue:
  "\<exists>new. queue (run_batch env cfg domain st) = drop (batch_size cfg) (queue st) @ new
         \<and> distinct (map url new)
         \<and> seen (run_batch env cfg domain st) = seen st \<union> url ` set new
         \<and> (\<forall>x\<in>set new. url x \<notin> seen st
               \<and> (\<exists>t\<in>set (batch_of cfg st). child_of env cfg domain t x))"
proof -
  let ?st0 = "st\<lparr>queue := drop (batch_size cfg) (queue st),
                  trace := trace st @ map Fetch (batch_of cfg st)\<rparr>"
  from tasks_queue[of env cfg domain "settled env (batch_of cfg st)" ?st0]
  show ?thesis
    by (simp add: run_batch_eq Let_def batch_of_def)
qed

lemma child_weight:
  assumes "child_of env cfg domain t x"
  shows "weight cfg x < weight cfg t"
proof -
  from assms have d: "depth x = Suc (depth t)" and lt: "of_nat (depth t) < maxDepth cfg"
    by (simp_all add: child_of_def)
  have "maxDepth cfg \<le> of_int \<lceil>maxDepth cfg\<rceil>" by (rule le_of_int_ceiling)
  with lt have "(of_nat (depth t) :: rat) < of_int \<lceil>maxDepth cfg\<rceil>"
    by (rule less_le_trans)
  then have "int (depth t) < \<lceil>maxDepth cfg\<rceil>"
    by (metis of_int_less_iff of_int_of_nat_eq)
  then have "depth t < nat \<lceil>maxDepth cfg\<rceil>" by simp
  with d show ?thesis by (simp add: weight_def)
qed

lemma run_batch_decreases:
  assumes w: "0 < batch_size cfg" and q: "queue st \<noteq> []"
  shows "queue_weight cfg (run_batch env cfg domain st) < queue_weight cfg st"
proof -
  from run_batch_queue[of env cfg domain st] obtain new where
    n: "queue (run_batch env cfg domain st) = drop (batch_size cfg) (queue st) @ new"
       "\<forall>x\<in>set new. \<exists>t\<in>set (batch_of cfg st). child_of env cfg domain t x"
    by (elim exE conjE) simp
  let ?I = "image_mset (weight cfg) (mset (drop (batch_size cfg) (queue st)))"
  let ?K = "image_mset (weight cfg) (mset new)"
  let ?J = "image_mset (weight cfg) (mset (batch_of cfg st))"
  have J: "?J \<noteq> {#}"
    using w q by (simp add: batch_of_def)
  have "\<forall>k\<in>#?K. \<exists>j\<in>#?J. k < j"
    using n(2) child_weight[of env cfg domain] by fastforce
  with J have "multp (<) (?I + ?K) (?I + ?J)"
    by (rule one_step_implies_multp)
  moreover have "queue_weight cfg (run_batch env cfg domain st) = ?I + ?K"
    by (simp add: queue_weight_def n(1))
  moreover have "queue_weight cfg st = ?I + ?J"
  proof -
    have "mset (queue st) = mset (batch_of cfg st) + mset (drop (batch_size cfg) (queue st))"
      unfolding batch_of_def by (metis append_take_drop_id mset_append)
    then show ?thesis by (simp add: queue_weight_def)
  qed
  ultimately show ?thesis
    by (simp add: less_multiset_def)
qed

lemma wf_queue_weight:
  "wf {(s', s). queue_weight cfg s' < queue_weight cfg s}"
proof -
  have "wfp ((<) :: nat multiset \<Rightarrow> nat multiset \<Rightarrow> bool)"
    by (rule wfp_less_multiset) (simp add: wfp_def wf_less[unfolded less_than_def[symmetric]])
  then have "wf {(M :: nat multiset, N). M < N}"
    by (simp add: wfp_def)
  then have "wf (inv_image {(M :: nat multiset, N). M < N} (queue_weight cfg))"
    by (rule wf_inv_image)
  then show ?thesis
    by (simp add: inv_image_def)
qed

lemma crawl_loop_rule:
  assumes w: "0 < batch_size cfg"
      and step: "\<And>s. I s \<Longrightarrow> queue s \<noteq> [] \<Longrightarrow> I (run_batch env cfg domain s)"
      and init: "I st"
  shows "\<exists>st'. crawl_loop env cfg domain st = Some st' \<and> I st' \<and> queue st' = []"
  using init
proof (induction st rule: wf_induct_rule[OF wf_queue_weight[of cfg]])
  case (1 st)
  show ?case
  proof (cases "queue st = []")
    case True
    with 1(2) show ?thesis
      by (subst crawl_loop.simps) simp
  next
    case False
    let ?s = "run_batch env cfg domain st"
    have "queue_weight cfg ?s < queue_weight cfg st"
      using w False by (rule run_batch_decreases)
    moreover have "I ?s" using 1(2) False by (rule step)
    ultimately obtain st' where
      "crawl_loop env cfg domain ?s = Some st'" "I st'" "queue st' = []"
      using 1(1)[of ?s] by auto
    with False show ?thesis
      by (subst crawl_loop.simps) simp
  qed
qed

subsection \<open>Seeding\<close>

lemma batch_size_pos: "1 \<le> maxWorkers cfg \<Longrightarrow> 0 < batch_size cfg"
proof -
  assume "1 \<le> maxWorkers cfg"
  then have "1 \<le> \<lfloor>maxWorkers cfg\<rfloor>" by (simp add: le_floor_iff)
  then show ?thesis by (simp add: batch_size_def)
qed

lemma fold_offer_pairs_fields [simp]:
  "processed (fold (\<lambda>(c, u). offer d c u) ps s) = processed s"
  "trace (fold (\<lambda>(c, u). offer d c u) ps s) = trace s"
  by (induction ps arbitrary: s) (simp_all add: split_def)

lemma fold_offer_pairs_queue:
  "\<exists>new. queue (fold (\<lambda>(c, u). offer d c u) ps s) = queue s @ new
         \<and> distinct (map url new)
         \<and> seen (fold (\<lambda>(c, u). offer d c u) ps s) = seen s \<union> url ` set new
         \<and> (\<forall>x\<in>set new. url x \<notin> seen s \<and> depth x = d \<and> (category x, url x) \<in> set ps)"
proof (induction ps arbitrary: s)
  case Nil
  show ?case by simp
next
  case (Cons p ps)
  obtain c l where p: "p = (c, l)" by (cases p)
  define s1 where "s1 = offer d c l s"
  define s2 where "s2 = fold (\<lambda>(c, u). offer d c u) ps s1"
  have s2: "fold (\<lambda>(c, u). offer d c u) (p # ps) s = s2"
    by (simp add: p s1_def s2_def)
  from Cons[of s1] obtain n2 where
    b1: "queue s2 = queue s1 @ n2" and b2: "distinct (map url n2)"
    and b3: "seen s2 = seen s1 \<union> url ` set n2"
    and b4: "\<forall>x\<in>set n2. url x \<notin> seen s1 \<and> depth x = d \<and> (category x, url x) \<in> set ps"
    unfolding s2_def by (elim exE conjE)
  show ?case
  proof (cases "l \<in> seen s")
    case True
    then have "s1 = s" by (simp add: s1_def offer_def)
    with b1 b2 b3 b4 show ?thesis
      unfolding s2 by (intro exI[of _ n2]) simp
  next
    case False
    let ?t = "\<lparr>url = l, depth = d, category = c\<rparr>"
    have q: "queue s1 = queue s @ [?t]" and sn: "seen s1 = insert l (seen s)"
      using False by (simp_all add: s1_def offer_def)
    have c1: "queue s2 = queue s @ (?t # n2)" by (simp add: b1 q)
    have c2: "distinct (map url (?t # n2))"
    proof -
      have "\<forall>x\<in>set n2. url x \<noteq> l" using b4 sn by simp
      then have "l \<notin> url ` set n2" by (simp add: image_iff) metis
      with b2 show ?thesis by simp
    qed
    have c3: "seen s2 = seen s \<union> url ` set (?t # n2)" by (simp add: b3 sn)
    have c4: "\<forall>x\<in>set (?t # n2).
        url x \<notin> seen s \<and> depth x = d \<and> (category x, url x) \<in> set (p # ps)"
      using b4 sn False p by simp
    show ?thesis
      unfolding s2 by (intro exI[of _ "?t # n2"] conjI c1 c2 c3 c4)
  qed
qed

lemma set_object_entries [simp]: "set (object_entries obj) = set obj"
  by (auto simp: object_entries_def)

lemma assign_pred:
  "P v \<Longrightarrow> list_all (\<lambda>p. P (snd p)) ps \<Longrightarrow> list_all (\<lambda>p. P (snd p)) (assign k v ps)"
proof -
  assume v: "P v" and ps: "list_all (\<lambda>p. P (snd p)) ps"
  from ps have "list_all (\<lambda>p. P (snd p)) (set_property k v ps)"
    using v by (induction ps) auto
  with ps show ?thesis by (simp add: assign_def)
qed

lemma fold_assign_pred:
  "list_all (\<lambda>p. P (snd p)) ls \<Longrightarrow> list_all (\<lambda>p. P (snd p)) acc \<Longrightarrow>
   list_all (\<lambda>p. P (snd p)) (fold (\<lambda>(t, link) categories.
             let s = sanitizeFilename t;
                 cleanText = (if s = [] then ''misc'' else s)
             in assign cleanText link categories) ls acc)"
proof (induction ls arbitrary: acc)
  case Nil
  then show ?case by simp
next
  case (Cons q ls)
  obtain t l where q: "q = (t, l)" by (cases q)
  let ?k = "if sanitizeFilename t = [] then ''misc'' else sanitizeFilename t"
  from Cons.prems(1) have l: "P l" and ls: "list_all (\<lambda>p. P (snd p)) ls"
    by (simp_all add: q)
  from l Cons.prems(2) have "list_all (\<lambda>p. P (snd p)) (assign ?k l acc)"
    by (rule assign_pred)
  with ls have "list_all (\<lambda>p. P (snd p)) (fold (\<lambda>(t, link) categories.
             let s = sanitizeFilename t;
                 cleanText = (if s = [] then ''misc'' else s)
             in assign cleanText link categories) ls (assign ?k l acc))"
    by (rule Cons.IH)
  then show ?case by (simp add: q Let_def)
qed

lemma fill_categories_pred:
  "list_all (\<lambda>p. P (snd p)) ls \<Longrightarrow> list_all (\<lambda>p. P (snd p)) (fill_categories ls)"
  unfolding fill_categories_def by (rule fold_assign_pred) simp_all

lemma category_links_includes:
  "category_links env b d as = Inr ps \<Longrightarrow> list_all (\<lambda>p. js_includes (snd p) d) ps"
proof (induction as arbitrary: ps)
  case Nil
  then show ?case by simp
next
  case (Cons a as)
  obtain h t where a: "a = (h, t)" by (cases a)
  from Cons.prems Cons.IH show ?case
    by (auto simp: a Let_def split: if_splits sum.splits)
qed

lemma extractCategories_includes:
  "list_all (\<lambda>p. js_includes (snd p) d) (extractCategories env b d)"
proof (cases "fetch env b")
  case (Inl e)
  then show ?thesis by (simp add: extractCategories_def)
next
  case (Inr r)
  show ?thesis
  proof (cases "category_links env b d (all_anchors (html r))")
    case (Inl e)
    with Inr show ?thesis by (simp add: extractCategories_def)
  next
    case (Inr ps)
    with \<open>fetch env b = Inr r\<close> have "extractCategories env b d = fill_categories ps"
      by (simp add: extractCategories_def)
    moreover from category_links_includes[OF Inr]
    have "list_all (\<lambda>p. js_includes (snd p) d) (fill_categories ps)"
      by (rule fill_categories_pred)
    ultimately show ?thesis by simp
  qed
qed

lemma set_set_spread [simp]: "set (set_spread xs) = set xs"
  by (induction xs rule: set_spread.induct) auto

lemma extract_links_includes:
  "extract_links env b d hs = Inr ls \<Longrightarrow> \<forall>l\<in>set ls. js_includes l d"
  by (induction hs arbitrary: ls) (auto split: if_splits sum.splits)

lemma scrape_links_include:
  assumes "scrape env d t = Some pg"
  shows "\<forall>l\<in>set (links pg). js_includes l d"
proof -
  from assms have "scrapePage env (url t) (depth t) d (category t) = Some pg"
    by (simp add: scrape_def)
  from scrapePage_SomeD[OF this] show ?thesis
    by (auto dest!: extract_links_includes)
qed

lemma scrape_fields:
  assumes "scrape env d t = Some pg"
  shows "url pg = url t" "depth pg = depth t" "category pg = category t"
  using scrapePage_SomeD[of env "url t" "depth t" d "category t" pg] assms
  by (auto simp: scrape_def)

lemma scrapeWebsite_rule:
  assumes w: "1 \<le> maxWorkers cfg"
      and init: "I (seed_state cfg (extractCategories env (targetUrl cfg)
                        (getDomain env (targetUrl cfg))))"
      and step: "\<And>s. I s \<Longrightarrow> queue s \<noteq> []
                   \<Longrightarrow> I (run_batch env cfg (getDomain env (targetUrl cfg)) s)"
  shows "\<exists>st. scrapeWebsite env cfg = Some st \<and> I st \<and> queue st = []"
proof -
  from w have "0 < batch_size cfg" by (rule batch_size_pos)
  from crawl_loop_rule[of cfg I env "getDomain env (targetUrl cfg)", OF this step init]
  show ?thesis by (simp add: scrapeWebsite_def Let_def)
qed

lemma seed_state_fields [simp]:
  "processed (seed_state cfg cats) = 0"
  "trace (seed_state cfg cats) = [Discover (targetUrl cfg)]"
  by (simp_all add: seed_state_def)

lemma seed_state_queue:
  "distinct (map url (queue (seed_state cfg cats)))
   \<and> seen (seed_state cfg cats) = url ` set (queue (seed_state cfg cats))
   \<and> (\<forall>x\<in>set (queue (seed_state cfg cats)).
         depth x = 0 \<and> (category x, url x) \<in> set cats)"
proof -
  let ?s0 = "\<lparr>seen = {}, queue = [], processed = 0, trace = [Discover (targetUrl cfg)]\<rparr>"
  from fold_offer_pairs_queue[of 0 "object_entries cats" ?s0]
  show ?thesis by (simp add: seed_state_def)
qed

lemma fetched_run_batch:
  "fetched (trace (run_batch env cfg domain s)) = fetched (trace s) @ batch_of cfg s"
  unfolding run_batch_trace by (simp only: fetched_append fetched_map append_Nil2)

lemma yielded_run_batch:
  "yielded (trace (run_batch env cfg domain s))
     = yielded (trace s) @ List.map_filter id (map (scrape env domain) (batch_of cfg s))"
  unfolding run_batch_trace by (simp only: yielded_append yielded_map append_Nil append_Nil2)

lemma progress_run_batch:
  "progress_events (trace (run_batch env cfg domain s))
     = progress_events (trace s)
       @ map2 (snapshot env domain) (settled env (batch_of cfg s))
           [Suc (processed s) ..< Suc (processed s + length (batch_of cfg s))]"
  unfolding run_batch_trace
  by (simp only: progress_events_append progress_events_map append_Nil append_Nil2)

lemma frontier_run_batch:
  "\<exists>new. frontier (run_batch env cfg domain s) = frontier s @ new
         \<and> distinct (map url new)
         \<and> seen (run_batch env cfg domain s) = seen s \<union> url ` set new
         \<and> (\<forall>x\<in>set new. url x \<notin> seen s
               \<and> (\<exists>t\<in>set (batch_of cfg s). child_of env cfg domain t x))"
proof -
  from run_batch_queue[of env cfg domain s] obtain new where
    n: "queue (run_batch env cfg domain s) = drop (batch_size cfg) (queue s) @ new"
       "distinct (map url new)"
       "seen (run_batch env cfg domain s) = seen s \<union> url ` set new"
       "\<forall>x\<in>set new. url x \<notin> seen s
               \<and> (\<exists>t\<in>set (batch_of cfg s). child_of env cfg domain t x)"
    by (elim exE conjE)
  have "frontier (run_batch env cfg domain s)
          = fetched (trace s) @ batch_of cfg s @ drop (batch_size cfg) (queue s) @ new"
    by (simp add: frontier_def fetched_run_batch n(1))
  also have "batch_of cfg s @ drop (batch_size cfg) (queue s) @ new = queue s @ new"
    by (simp add: batch_of_def)
  finally have "frontier (run_batch env cfg domain s) = frontier s @ new"
    by (simp add: frontier_def)
  with n(2,3,4) show ?thesis by (intro exI[of _ new] conjI)
qed

subsection \<open>No URL enters the frontier twice\<close>

lemma inv_dedup_seed: "inv_dedup (seed_state cfg cats)"
  using seed_state_queue[of cfg cats] by (simp add: inv_dedup_def frontier_def)

lemma inv_dedup_step:
  assumes "inv_dedup s"
  shows "inv_dedup (run_batch env cfg domain s)"
proof -
  from frontier_run_batch[of env cfg domain s] obtain new where
    n: "frontier (run_batch env cfg domain s) = frontier s @ new"
       "distinct (map url new)"
       "seen (run_batch env cfg domain s) = seen s \<union> url ` set new"
       "\<forall>x\<in>set new. url x \<notin> seen s
               \<and> (\<exists>t\<in>set (batch_of cfg s). child_of env cfg domain t x)"
    by (elim exE conjE)
  from assms have d: "distinct (map url (frontier s))"
    and sn: "seen s = url ` set (frontier s)"
    by (simp_all add: inv_dedup_def)
  have "\<forall>x\<in>set new. url x \<notin> url ` set (frontier s)"
    using n(4) sn by simp
  then have "url ` set (frontier s) \<inter> url ` set new = {}"
    by (rule disjoint_images)
  with d n(2) have "distinct (map url (frontier s @ new))" by simp
  moreover have "seen s \<union> url ` set new = url ` set (frontier s @ new)"
    by (simp add: sn image_Un)
  ultimately show ?thesis by (simp add: inv_dedup_def n(1) n(3))
qed

subsection \<open>Every URL of the frontier includes the domain\<close>

lemma inv_domain_seed:
  "inv_domain d (seed_state cfg (extractCategories env b d))"
proof -
  let ?cats = "extractCategories env b d"
  have a: "\<forall>p\<in>set ?cats. js_includes (snd p) d"
    using extractCategories_includes[of d env b] by (simp add: list_all_iff)
  have "\<forall>x\<in>set (queue (seed_state cfg ?cats)). js_includes (url x) d"
  proof
    fix x assume "x \<in> set (queue (seed_state cfg ?cats))"
    with seed_state_queue[of cfg ?cats] have "(category x, url x) \<in> set ?cats" by simp
    with a have "js_includes (snd (category x, url x)) d" by (rule bspec)
    then show "js_includes (url x) d" by simp
  qed
  then show ?thesis by (simp add: inv_domain_def frontier_def list_all_iff)
qed

lemma child_includes:
  assumes "child_of env cfg d t x"
  shows "js_includes (url x) d"
proof -
  from assms obtain pg where "scrape env d t = Some pg" "url x \<in> set (links pg)"
    by (auto simp: child_of_def)
  with scrape_links_include[of env d t pg] show ?thesis by simp
qed

lemma inv_domain_step:
  assumes "inv_domain d s"
  shows "inv_domain d (run_batch env cfg d s)"
proof -
  from frontier_run_batch[of env cfg d s] obtain new where
    n: "frontier (run_batch env cfg d s) = frontier s @ new"
       "\<forall>x\<in>set new. url x \<notin> seen s
               \<and> (\<exists>t\<in>set (batch_of cfg s). child_of env cfg d t x)"
    by (elim exE conjE)
  have "\<forall>x\<in>set new. js_includes (url x) d"
  proof
    fix x assume "x \<in> set new"
    with n(2) obtain t where "child_of env cfg d t x" by auto
    then show "js_includes (url x) d" by (rule child_includes)
  qed
  then have "list_all (\<lambda>x. js_includes (url x) d) new" by (simp add: list_all_iff)
  with assms show ?thesis by (simp add: inv_domain_def n(1))
qed

subsection \<open>Reports\<close>

lemma snapshot_fields [simp]:
  "totalProcessed (snapshot env d t n) = n"
  "progress_url (snapshot env d t n) = url t"
  by (simp_all add: snapshot_def split: option.splits)

lemma snapshot_status:
  "(progress_status (snapshot env d t n) = error) = (scrape env d t = None)"
  "(progress_status (snapshot env d t n) = success) = (scrape env d t \<noteq> None)"
  by (simp_all add: snapshot_def scrape_def split: option.splits)


lemma map2_snapshot_total:
  "length ns = length ts \<Longrightarrow> map totalProcessed (map2 (snapshot env d) ts ns) = ns"
proof (induction ts arbitrary: ns)
  case Nil
  then show ?case by simp
next
  case (Cons t ts)
  then obtain n ns' where "ns = n # ns'" by (cases ns) simp_all
  with Cons show ?case by simp
qed

lemma map2_snapshot_errors:
  "length ns = length ts \<Longrightarrow>
     length (filter (\<lambda>p. progress_status p = error) (map2 (snapshot env d) ts ns))
       = length (filter (\<lambda>t. scrape env d t = None) ts)"
proof (induction ts arbitrary: ns)
  case Nil
  then show ?case by simp
next
  case (Cons t ts)
  then obtain n ns' where "ns = n # ns'" by (cases ns) simp_all
  with Cons show ?case by (simp add: snapshot_status)
qed


lemma length_counters: "length [Suc p ..< Suc (p + k)] = k"
  by (simp only: length_upt diff_Suc_Suc add_diff_cancel_left')

lemma filter_settled_length:
  "length (filter P (settled env b)) = length (filter P b)"
proof -
  have "mset (filter P (settled env b)) = mset (filter P b)"
    by (simp add: mset_settled)
  then show ?thesis by (metis size_mset)
qed

subsection \<open>The counter and the reports\<close>

lemma inv_count_seed: "inv_count (seed_state cfg cats)"
  by (simp add: inv_count_def)

lemma inv_count_step:
  assumes "inv_count s"
  shows "inv_count (run_batch env cfg d s)"
proof -
  let ?k = "length (batch_of cfg s)"
  let ?ns = "[Suc (processed s) ..< Suc (processed s + ?k)]"
  from assms have a: "map totalProcessed (progress_events (trace s)) = [1..<Suc (processed s)]"
    and b: "processed s = length (fetched (trace s))"
    by (simp_all add: inv_count_def)
  have len: "length ?ns = length (settled env (batch_of cfg s))"
    by (simp only: length_counters length_settled)
  have "map totalProcessed (progress_events (trace (run_batch env cfg d s)))
          = [1..<Suc (processed s)] @ ?ns"
    unfolding progress_run_batch map_append a
    by (simp only: map2_snapshot_total[OF len])
  also have "\<dots> = [1..<Suc (processed s + ?k)]"
  proof -
    have "[1..<Suc (processed s) + ?k] = [1..<Suc (processed s)] @ [Suc (processed s)..<Suc (processed s) + ?k]"
      by (rule upt_add_eq_append) simp
    then show ?thesis by simp
  qed
  finally have "map totalProcessed (progress_events (trace (run_batch env cfg d s)))
          = [1..<Suc (processed (run_batch env cfg d s))]"
    by (simp only: run_batch_processed)
  moreover have "processed (run_batch env cfg d s) = length (fetched (trace (run_batch env cfg d s)))"
    by (simp add: run_batch_processed fetched_run_batch b)
  ultimately show ?thesis by (simp only: inv_count_def simp_thms)
qed

subsection \<open>Every report belongs to a fetch attempt\<close>



subsection \<open>Yields and failures\<close>

lemma map_filter_append:
  "List.map_filter f (xs @ ys) = List.map_filter f xs @ List.map_filter f ys"
  by (simp add: List.map_filter_def)

lemma inv_yield_seed: "inv_yield env d (seed_state cfg cats)"
  by (simp add: inv_yield_def List.map_filter_def)

lemma inv_yield_step:
  assumes "inv_yield env d s"
  shows "inv_yield env d (run_batch env cfg d s)"
proof -
  let ?b = "batch_of cfg s"
  let ?ns = "[Suc (processed s) ..< Suc (processed s + length ?b)]"
  from assms have a: "yielded (trace s) = List.map_filter id (map (scrape env d) (fetched (trace s)))"
    and b: "length (filter (\<lambda>p. progress_status p = error) (progress_events (trace s)))
          = length (filter (\<lambda>t. scrape env d t = None) (fetched (trace s)))"
    by (simp_all add: inv_yield_def)
  have len: "length ?ns = length (settled env ?b)"
    by (simp only: length_counters length_settled)
  have y: "yielded (trace (run_batch env cfg d s))
          = List.map_filter id (map (scrape env d) (fetched (trace (run_batch env cfg d s))))"
    by (simp add: yielded_run_batch fetched_run_batch a map_filter_append)
  have "length (filter (\<lambda>p. progress_status p = error)
                  (progress_events (trace (run_batch env cfg d s))))
        = length (filter (\<lambda>t. scrape env d t = None) (fetched (trace s)))
          + length (filter (\<lambda>t. scrape env d t = None) (settled env ?b))"
    unfolding progress_run_batch filter_append length_append b
    by (simp only: map2_snapshot_errors[OF len])
  also have "\<dots> = length (filter (\<lambda>t. scrape env d t = None)
                        (fetched (trace (run_batch env cfg d s))))"
    by (simp add: fetched_run_batch filter_settled_length)
  finally show ?thesis using y by (simp only: inv_yield_def simp_thms)
qed

section \<open>The frontier\<close>

text \<open>The run over the small site, with \<open>maxDepth\<close> 1 and with \<open>maxDepth\<close> 3/2.\<close>

lemma ex_run: "crawl_trace ex_web ex_cfg = Some ex_trace"
  by code_simp

lemma ex_run_frac: "crawl_trace ex_web ex_cfg_frac = Some ex_trace_frac"
  by code_simp

lemma ex_cfg_workers: "1 \<le> maxWorkers ex_cfg"
  by (simp add: ex_cfg_def)

lemma ex_fetched_urls:
  "map url (fetched ex_trace)
     = [''https://ex.test/a'', ''https://ex.test/b'', ''https://evil.test/?ref=ex.test'',
        ''https://ex.test/'', ''https://ex.test/c'']"
  by (simp add: ex_trace_def)


text \<open>
  C1. The claim fails on the code. \<open>scrapeWebsite\<close> takes the host name of the seed URL
  as \<open>domain\<close>, and the two link loops test \<open>fullUrl.includes(domain)\<close>, which looks
  for the host name anywhere in the URL and not in its host. The small site links to
  \<open>https://evil.test/?ref=ex.test\<close>, whose host is \<open>evil.test\<close>; the URL includes
  \<open>ex.test\<close>, so it is put on the queue and fetched, although the host of the seed
  URL is \<open>ex.test\<close>.
\<close>

theorem C1_cross_host_url_fetched:
  "crawl_trace ex_web ex_cfg = Some ex_trace
   \<and> Fetch \<lparr>url = ''https://evil.test/?ref=ex.test'', depth = 0, category = ''Partner''\<rparr>
       \<in> set ex_trace
   \<and> url_hostname ex_web ''https://evil.test/?ref=ex.test'' = Inr ''evil.test''
   \<and> url_hostname ex_web (targetUrl ex_cfg) = Inr ''ex.test''
   \<and> ''evil.test'' \<noteq> ''ex.test''"
  by (simp add: ex_run) (simp add: ex_trace_def ex_web_def ex_cfg_def)

text \<open>
  What the test does ensure: every URL that is put on the frontier includes, as a
  substring, the string that \<open>getDomain\<close> returns for the seed URL.
\<close>

lemma frontier_urls_include_domain:
  assumes "1 \<le> maxWorkers cfg"
  shows "\<exists>st. scrapeWebsite env cfg = Some st \<and> queue st = []
           \<and> (\<forall>t\<in>set (fetched (trace st)).
                 js_includes (url t) (getDomain env (targetUrl cfg)))"
proof -
  let ?d = "getDomain env (targetUrl cfg)"
  from assms have "\<exists>st. scrapeWebsite env cfg = Some st \<and> inv_domain ?d st \<and> queue st = []"
  proof (rule scrapeWebsite_rule)
    show "inv_domain ?d (seed_state cfg (extractCategories env (targetUrl cfg) ?d))"
      by (rule inv_domain_seed)
  next
    fix s assume "inv_domain ?d s"
    then show "inv_domain ?d (run_batch env cfg ?d s)" by (rule inv_domain_step)
  qed
  then obtain st where st: "scrapeWebsite env cfg = Some st" "inv_domain ?d st" "queue st = []"
    by (elim exE conjE)
  from st(2) st(3) have "\<forall>t\<in>set (fetched (trace st)). js_includes (url t) ?d"
    by (simp add: inv_domain_def frontier_def list_all_iff)
  with st(1) st(3) show ?thesis by (intro exI[of _ st] conjI)
qed

lemma inv_dedup_crawl_state: "inv_dedup (crawl_state env cfg k)"
proof (induction k)
  case 0
  show ?case by (simp add: crawl_state_def inv_dedup_seed)
next
  case (Suc k)
  then have "inv_dedup (run_batch env cfg (getDomain env (targetUrl cfg))
                          (crawl_state env cfg k))"
    by (rule inv_dedup_step)
  then show ?case by (simp add: crawl_state_def)
qed

text \<open>
  The queue entries are fetched once each: no URL occurs twice among the calls of
  \<open>scrapePage\<close> for queue entries. A URL enters \<open>seen\<close> when it is put on the queue, an
  offered URL that is in \<open>seen\<close> is not put on the queue again, and after every turn of
  the loop the entries fetched so far and the entries on the queue have pairwise
  different URLs, which are the members of \<open>seen\<close>.
\<close>

lemma frontier_urls_fetched_once:
  assumes "1 \<le> maxWorkers cfg"
  shows "(\<exists>st. scrapeWebsite env cfg = Some st \<and> queue st = []
            \<and> distinct (map url (fetched (trace st)))
            \<and> seen st = url ` set (fetched (trace st)))
         \<and> (\<forall>k. distinct (map url (fetched (trace (crawl_state env cfg k))
                                    @ queue (crawl_state env cfg k)))
                \<and> seen (crawl_state env cfg k)
                    = url ` set (fetched (trace (crawl_state env cfg k))
                                 @ queue (crawl_state env cfg k)))"
proof -
  let ?d = "getDomain env (targetUrl cfg)"
  from assms have "\<exists>st. scrapeWebsite env cfg = Some st \<and> inv_dedup st \<and> queue st = []"
  proof (rule scrapeWebsite_rule)
    show "inv_dedup (seed_state cfg (extractCategories env (targetUrl cfg) ?d))"
      by (rule inv_dedup_seed)
  next
    fix s assume "inv_dedup s"
    then show "inv_dedup (run_batch env cfg ?d s)" by (rule inv_dedup_step)
  qed
  then obtain st where st: "scrapeWebsite env cfg = Some st" "inv_dedup st" "queue st = []"
    by (elim exE conjE)
  from st(2) st(3) have "distinct (map url (fetched (trace st)))"
    "seen st = url ` set (fetched (trace st))"
    by (simp_all add: inv_dedup_def frontier_def)
  with st(1) st(3) have final: "\<exists>st. scrapeWebsite env cfg = Some st \<and> queue st = []
            \<and> distinct (map url (fetched (trace st)))
            \<and> seen st = url ` set (fetched (trace st))"
    by (intro exI[of _ st] conjI)
  have "\<forall>k. distinct (map url (fetched (trace (crawl_state env cfg k))
                                    @ queue (crawl_state env cfg k)))
                \<and> seen (crawl_state env cfg k)
                    = url ` set (fetched (trace (crawl_state env cfg k))
                                 @ queue (crawl_state env cfg k))"
    using inv_dedup_crawl_state[of env cfg] by (simp add: inv_dedup_def frontier_def)
  with final show ?thesis by (rule conjI)
qed

section \<open>The order of the events\<close>

text \<open>
  C4, as stated, fails. The generator yields only after \<open>await Promise.all(promises)\<close>,
  and it walks the result array, which is in the order of the batch. In the run over
  the small site the first batch reports \<open>/b\<close> and then \<open>/a\<close> before it yields
  \<open>/b\<close>, and in the second batch \<open>/\<close> settles before \<open>https://evil.test/?ref=ex.test\<close>
  and is yielded after it.
\<close>

theorem C4_yields_buffered_counterexample:
  "crawl_trace ex_web ex_cfg = Some ex_trace
   \<and> \<not> yields_as_settled ex_trace
   \<and> success_urls ex_trace
       = [''https://ex.test/b'', ''https://ex.test/'', ''https://evil.test/?ref=ex.test'',
          ''https://ex.test/c'']
   \<and> map url (yielded ex_trace)
       = [''https://ex.test/b'', ''https://evil.test/?ref=ex.test'', ''https://ex.test/'',
          ''https://ex.test/c'']
   \<and> map url (yielded ex_trace) \<noteq> success_urls ex_trace"
  by (simp add: ex_run) (simp add: ex_trace_def success_urls_def)

text \<open>
  C4, amended. One turn of the loop takes the next entries of the queue as its batch,
  issues their fetches, lets all of them settle (one report each, in the order of
  settling), and only then yields the pages of the batch that were scraped with
  success, in the order of the batch, whatever the order of settling was.
\<close>

theorem C4_yields_after_batch_in_queue_order:
  "trace (run_batch env cfg domain st)
     = trace st
       @ map Fetch (batch_of cfg st)
       @ map Progress (map2 (snapshot env domain) (settled env (batch_of cfg st))
            [Suc (processed st) ..< Suc (processed st + length (batch_of cfg st))])
       @ map Yield (List.map_filter id (map (scrape env domain) (batch_of cfg st)))"
  by (rule run_batch_trace)


section \<open>The counters and the status of the project\<close>

lemma job_ok_new: "job_ok new_job"
  by (simp add: job_ok_def new_job_def)

lemma on_progress_ok:
  assumes "job_ok j" "totalProcessed p = Suc (processedCount j)"
  shows "job_ok (on_progress p j)" "processedCount (on_progress p j) = Suc (processedCount j)"
  using assms by (simp_all add: job_ok_def on_progress_def Let_def)

lemma consume_ok:
  assumes "job_ok j"
      and "map totalProcessed (progress_events es)
             = [Suc (processedCount j) ..< Suc (processedCount j + length (progress_events es))]"
  shows "job_ok (snd (consume body es j))"
  using assms
proof (induction body es j rule: consume.induct)
  case (1 body j)
  then show ?case by simp
next
  case (2 body p es j)
  let ?c = "processedCount j"
  let ?k = "length (progress_events es)"
  have "[Suc ?c ..< Suc (?c + length (progress_events (Progress p # es)))]
          = Suc ?c # [Suc (Suc ?c) ..< Suc (Suc ?c + ?k)]"
    by (subst upt_conv_Cons) simp_all
  with 2(3) have p: "totalProcessed p = Suc ?c"
    and rest: "map totalProcessed (progress_events es) = [Suc (Suc ?c) ..< Suc (Suc ?c + ?k)]"
    by simp_all
  from on_progress_ok[OF 2(2) p] rest
  have "job_ok (snd (consume body es (on_progress p j)))"
    by (intro 2(1)) simp_all
  then show ?case by simp
next
  case (3 body p es j)
  show ?case
  proof (cases "body p")
    case None
    have "job_ok (j\<lparr>saved := saved j @ [p]\<rparr>)"
      using 3(2) by (simp add: job_ok_def)
    with 3(1)[OF None] 3(3) None show ?thesis by simp
  next
    case (Some e)
    with 3(2) show ?thesis by simp
  qed
qed simp_all

lemma progress_take:
  assumes "map totalProcessed (progress_events tr) = [1..<Suc N]"
  shows "map totalProcessed (progress_events (take n tr))
           = [1..<Suc (length (progress_events (take n tr)))]"
proof -
  let ?a = "progress_events (take n tr)"
  let ?b = "progress_events (drop n tr)"
  have "progress_events tr = ?a @ ?b"
    by (metis append_take_drop_id progress_events_append)
  with assms have eq: "map totalProcessed ?a @ map totalProcessed ?b = [1..<Suc N]"
    by simp
  then have "length ?a + length ?b = N"
    by (metis length_append length_map length_upt diff_Suc_1)
  then have le: "1 + length ?a \<le> Suc N" by simp
  from eq have "map totalProcessed ?a = take (length ?a) [1..<Suc N]"
    by (metis append_eq_conv_conj length_map)
  also have "\<dots> = [1..<1 + length ?a]"
    using le by (rule take_upt)
  finally show ?thesis by simp
qed

text \<open>
  C6. In every run the reports carry the numbers 1, 2, 3, ... in the order in which they
  are made, and there are as many reports as fetch attempts: the counter rises by
  exactly one for each settled fetch, success or failure. The job writes the three
  counters of the project in the callback, and at every point of the run (after every
  initial part of the events, whatever the loop body does) the stored \<open>processedUrls\<close>
  is the sum of the stored \<open>successfulUrls\<close> and \<open>failedUrls\<close>.
\<close>

theorem C6_counters:
  assumes "1 \<le> maxWorkers cfg"
  shows "\<exists>st. scrapeWebsite env cfg = Some st
           \<and> map totalProcessed (progress_events (trace st))
               = [1..<Suc (length (fetched (trace st)))]
           \<and> (\<forall>n. processedUrls (project (snd (consume body (take n (trace st)) new_job)))
                     = successfulUrls (project (snd (consume body (take n (trace st)) new_job)))
                       + failedUrls (project (snd (consume body (take n (trace st)) new_job))))"
proof -
  let ?d = "getDomain env (targetUrl cfg)"
  from assms have "\<exists>st. scrapeWebsite env cfg = Some st \<and> inv_count st \<and> queue st = []"
  proof (rule scrapeWebsite_rule)
    show "inv_count (seed_state cfg (extractCategories env (targetUrl cfg) ?d))"
      by (rule inv_count_seed)
  next
    fix s assume "inv_count s"
    then show "inv_count (run_batch env cfg ?d s)" by (rule inv_count_step)
  qed
  then obtain st where st: "scrapeWebsite env cfg = Some st" "inv_count st"
    by (elim exE conjE)
  from st(2) have tot: "map totalProcessed (progress_events (trace st))
               = [1..<Suc (length (fetched (trace st)))]"
    by (simp add: inv_count_def)
  have "\<forall>n. processedUrls (project (snd (consume body (take n (trace st)) new_job)))
                     = successfulUrls (project (snd (consume body (take n (trace st)) new_job)))
                       + failedUrls (project (snd (consume body (take n (trace st)) new_job)))"
  proof
    fix n
    have "map totalProcessed (progress_events (take n (trace st)))
           = [1..<Suc (length (progress_events (take n (trace st))))]"
      using tot by (rule progress_take)
    then have "map totalProcessed (progress_events (take n (trace st)))
           = [Suc (processedCount new_job)
                ..< Suc (processedCount new_job + length (progress_events (take n (trace st))))]"
      by (simp add: new_job_def)
    with job_ok_new have "job_ok (snd (consume body (take n (trace st)) new_job))"
      by (rule consume_ok)
    then show "processedUrls (project (snd (consume body (take n (trace st)) new_job)))
                     = successfulUrls (project (snd (consume body (take n (trace st)) new_job)))
                       + failedUrls (project (snd (consume body (take n (trace st)) new_job)))"
      by (simp add: job_ok_def)
  qed
  with st(1) tot show ?thesis by (intro exI[of _ st] conjI)
qed

text \<open>
  The run over the small site, for C6: five fetch attempts, and the project after the
  first five events, when the two reports of the first batch have been made.
\<close>

theorem C6_counters_witness:
  "1 \<le> maxWorkers ex_cfg
   \<and> (\<exists>st. scrapeWebsite ex_web ex_cfg = Some st
         \<and> length (fetched (trace st)) = 5
         \<and> map totalProcessed (progress_events (trace st)) = [1, 2, 3, 4, 5]
         \<and> project (snd (consume (\<lambda>p. None) (take 5 (trace st)) new_job))
             = \<lparr>project_status = running, processedUrls = 2, successfulUrls = 1,
                failedUrls = 1\<rparr>
         \<and> processedUrls (project (snd (consume (\<lambda>p. None) (take 5 (trace st)) new_job)))
             = successfulUrls (project (snd (consume (\<lambda>p. None) (take 5 (trace st)) new_job)))
               + failedUrls (project (snd (consume (\<lambda>p. None) (take 5 (trace st)) new_job))))"
proof -
  from C6_counters[OF ex_cfg_workers, of ex_web "\<lambda>p. None"] obtain st where
    st: "scrapeWebsite ex_web ex_cfg = Some st"
    and tot: "map totalProcessed (progress_events (trace st))
               = [1..<Suc (length (fetched (trace st)))]"
    and eq: "\<forall>n. processedUrls (project (snd (consume (\<lambda>p. None) (take n (trace st)) new_job)))
               = successfulUrls (project (snd (consume (\<lambda>p. None) (take n (trace st)) new_job)))
                 + failedUrls (project (snd (consume (\<lambda>p. None) (take n (trace st)) new_job)))"
    by (elim exE conjE)
  from st ex_run have tr: "trace st = ex_trace" by (simp add: crawl_trace_def)
  have len: "length (fetched (trace st)) = 5"
    by (simp add: tr ex_trace_def)
  with tot have "map totalProcessed (progress_events (trace st)) = [1..<6]" by simp
  also have "[1..<6] = [1, 2, 3, 4, 5 :: nat]" by code_simp
  finally have tot': "map totalProcessed (progress_events (trace st)) = [1, 2, 3, 4, 5]" .
  have pr: "project (snd (consume (\<lambda>p. None) (take 5 (trace st)) new_job))
             = \<lparr>project_status = running, processedUrls = 2, successfulUrls = 1,
                failedUrls = 1\<rparr>"
    by (simp add: tr ex_trace_def new_job_def on_progress_def Let_def)
  from eq have "processedUrls (project (snd (consume (\<lambda>p. None) (take 5 (trace st)) new_job)))
             = successfulUrls (project (snd (consume (\<lambda>p. None) (take 5 (trace st)) new_job)))
               + failedUrls (project (snd (consume (\<lambda>p. None) (take 5 (trace st)) new_job)))"
    by (rule spec)
  with st len tot' pr ex_cfg_workers show ?thesis
    by (intro conjI exI[of _ st])
qed

lemma ex_run_down: "crawl_trace ex_web_down ex_cfg = Some ex_trace_down"
  by code_simp

lemma consume_fails:
  "(fst (consume body es j) \<noteq> None) = list_ex (\<lambda>p. body p \<noteq> None) (yielded es)"
  by (induction body es j rule: consume.induct) (auto split: option.splits)

lemma on_progress_failed:
  "failedUrls (project (on_progress p j)) = errorCount (on_progress p j)"
  "errorCount (on_progress p j)
     = errorCount j + length (filter (\<lambda>p. progress_status p = error) [p])"
  by (cases "progress_status p"; simp add: on_progress_def Let_def)+

lemma consume_errors:
  assumes "failedUrls (project j) = errorCount j" "fst (consume body es j) = None"
  shows "failedUrls (project (snd (consume body es j)))
           = errorCount j
             + length (filter (\<lambda>p. progress_status p = error) (progress_events es))"
  using assms
proof (induction body es j rule: consume.induct)
  case (1 body j)
  then show ?case by simp
next
  case (2 body p es j)
  from 2(3) have "fst (consume body es (on_progress p j)) = None" by simp
  with 2(1)[OF on_progress_failed(1)]
  have "failedUrls (project (snd (consume body es (on_progress p j))))
          = errorCount (on_progress p j)
            + length (filter (\<lambda>p. progress_status p = error) (progress_events es))"
    by simp
  then show ?case by (simp add: on_progress_failed(2))
next
  case (3 body p es j)
  show ?case
  proof (cases "body p")
    case None
    with 3(1)[OF None] 3(2) 3(3) show ?thesis by simp
  next
    case (Some e)
    with 3(3) show ?thesis by simp
  qed
qed simp_all

lemma map_filter_id_mem: "(p \<in> set (List.map_filter id xs)) = (Some p \<in> set xs)"
  by (induction xs) (auto simp: List.map_filter_def)

lemma scrape_job_cases:
  assumes "scrapeWebsite env cfg = Some st"
  shows "scrape_job env body cfg
           = Some (set_status (if fst (consume body (trace st) new_job) = None
                               then completed else failed)
                     (snd (consume body (trace st) new_job)))"
  using assms by (simp add: scrape_job_def split: prod.splits option.splits)

text \<open>
  C7. In every run the job ends, and it ends with the status \<open>failed\<close> exactly when the
  body of its loop throws for a yielded page, which happens outside the \<open>try\<close> block of
  the tasks; otherwise it ends with the status \<open>completed\<close>, and then \<open>failedUrls\<close> is
  the number of fetch attempts for which \<open>scrapePage\<close> returned \<open>null\<close>. In particular
  a run all of whose fetch attempts fail ends with the status \<open>completed\<close>.
\<close>

theorem C7_failures_do_not_abort:
  assumes "1 \<le> maxWorkers cfg"
  shows "\<exists>st j. scrapeWebsite env cfg = Some st \<and> scrape_job env body cfg = Some j
           \<and> (project_status (project j) = failed)
               = (\<exists>p\<in>set (yielded (trace st)). body p \<noteq> None)
           \<and> (project_status (project j) = completed)
               = (\<forall>p\<in>set (yielded (trace st)). body p = None)
           \<and> (project_status (project j) = completed \<longrightarrow>
                failedUrls (project j)
                  = length (filter (\<lambda>t. scrapePage env (url t) (depth t)
                                          (getDomain env (targetUrl cfg)) (category t) = None)
                             (fetched (trace st))))
           \<and> ((\<forall>t\<in>set (fetched (trace st)).
                  scrapePage env (url t) (depth t) (getDomain env (targetUrl cfg))
                    (category t) = None)
                \<longrightarrow> project_status (project j) = completed)"
proof -
  let ?d = "getDomain env (targetUrl cfg)"
  from assms have "\<exists>st. scrapeWebsite env cfg = Some st \<and> inv_yield env ?d st \<and> queue st = []"
  proof (rule scrapeWebsite_rule)
    show "inv_yield env ?d (seed_state cfg (extractCategories env (targetUrl cfg) ?d))"
      by (rule inv_yield_seed)
  next
    fix s assume "inv_yield env ?d s"
    then show "inv_yield env ?d (run_batch env cfg ?d s)" by (rule inv_yield_step)
  qed
  then obtain st where st: "scrapeWebsite env cfg = Some st" "inv_yield env ?d st"
    by (elim exE conjE)
  from st(2) have y: "yielded (trace st)
                        = List.map_filter id (map (scrape env ?d) (fetched (trace st)))"
    and e: "length (filter (\<lambda>p. progress_status p = error) (progress_events (trace st)))
              = length (filter (\<lambda>t. scrape env ?d t = None) (fetched (trace st)))"
    by (simp_all add: inv_yield_def)
  define r where "r = consume body (trace st) new_job"
  define j where "j = set_status (if fst r = None then completed else failed) (snd r)"
  have job: "scrape_job env body cfg = Some j"
    unfolding j_def r_def using st(1) by (rule scrape_job_cases)
  have status: "project_status (project j) = (if fst r = None then completed else failed)"
    by (simp add: j_def set_status_def)
  have fails: "(fst r \<noteq> None) = (\<exists>p\<in>set (yielded (trace st)). body p \<noteq> None)"
    by (simp only: r_def consume_fails list_ex_iff)
  have s1: "(project_status (project j) = failed) = (fst r \<noteq> None)"
    and s2: "(project_status (project j) = completed) = (fst r = None)"
    by (simp_all add: status)
  have c1: "(project_status (project j) = failed)
              = (\<exists>p\<in>set (yielded (trace st)). body p \<noteq> None)"
    by (simp only: s1 fails)
  have "(fst r = None) = (\<not> (\<exists>p\<in>set (yielded (trace st)). body p \<noteq> None))"
    by (simp only: fails[symmetric] not_not)
  also have "\<dots> = (\<forall>p\<in>set (yielded (trace st)). body p = None)"
    by (simp only: bex_simps not_not)
  finally have c2: "(project_status (project j) = completed)
              = (\<forall>p\<in>set (yielded (trace st)). body p = None)"
    by (simp only: s2)
  have c3: "project_status (project j) = completed \<longrightarrow>
                failedUrls (project j)
                  = length (filter (\<lambda>t. scrapePage env (url t) (depth t) ?d (category t) = None)
                             (fetched (trace st)))"
  proof
    assume "project_status (project j) = completed"
    then have none: "fst (consume body (trace st) new_job) = None"
      by (simp add: status r_def split: if_splits)
    have "failedUrls (project new_job) = errorCount new_job"
      by (simp add: new_job_def)
    from consume_errors[OF this none]
    have "failedUrls (project (snd r))
            = length (filter (\<lambda>p. progress_status p = error) (progress_events (trace st)))"
      by (simp add: r_def new_job_def)
    then show "failedUrls (project j)
                  = length (filter (\<lambda>t. scrapePage env (url t) (depth t) ?d (category t) = None)
                             (fetched (trace st)))"
      by (simp add: j_def set_status_def e scrape_def)
  qed
  have c4: "(\<forall>t\<in>set (fetched (trace st)).
                  scrapePage env (url t) (depth t) ?d (category t) = None)
                \<longrightarrow> project_status (project j) = completed"
  proof
    assume all: "\<forall>t\<in>set (fetched (trace st)).
                  scrapePage env (url t) (depth t) ?d (category t) = None"
    have "yielded (trace st) = []"
    proof (rule ccontr)
      assume "yielded (trace st) \<noteq> []"
      then obtain p where "p \<in> set (yielded (trace st))"
        by (cases "yielded (trace st)") auto
      then have "Some p \<in> set (map (scrape env ?d) (fetched (trace st)))"
        by (simp add: y map_filter_id_mem)
      then obtain t where "t \<in> set (fetched (trace st))" "scrape env ?d t = Some p"
        by auto
      with all show False by (simp add: scrape_def)
    qed
    with c2 show "project_status (project j) = completed" by simp
  qed
  from st(1) job c1 c2 c3 c4 show ?thesis
    by (intro exI[of _ st] exI[of _ j] conjI)
qed

lemma ex_down_all_fail:
  "\<forall>t\<in>set (fetched ex_trace_down).
     scrapePage ex_web_down (url t) (depth t) (getDomain ex_web_down (targetUrl ex_cfg))
       (category t) = None"
proof -
  have "scrapePage ex_web_down u d ''ex.test'' c = None" if "u \<noteq> ''https://ex.test/''" for u d c
    using that by (simp add: scrapePage_def scrapePage_try_def ex_web_down_def ex_web_def)
  moreover have "getDomain ex_web_down (targetUrl ex_cfg) = ''ex.test''"
    by (simp add: getDomain_def ex_web_down_def ex_web_def ex_cfg_def)
  ultimately show ?thesis
    by (simp add: ex_trace_down_def)
qed

text \<open>
  Two runs for C7: over the site whose pages are unreachable all three fetch attempts
  fail and the job is \<open>completed\<close> with \<open>failedUrls\<close> 3; over the small site with a loop
  body that throws for one page the job is \<open>failed\<close>.
\<close>

theorem C7_failures_do_not_abort_witness:
  "1 \<le> maxWorkers ex_cfg
   \<and> (\<exists>st j. scrapeWebsite ex_web_down ex_cfg = Some st
           \<and> map url (fetched (trace st))
               = [''https://ex.test/a'', ''https://ex.test/b'', ''https://evil.test/?ref=ex.test'']
           \<and> scrape_job ex_web_down (\<lambda>p. None) ex_cfg = Some j
           \<and> project_status (project j) = completed
           \<and> failedUrls (project j) = 3)
   \<and> (\<exists>st j. scrapeWebsite ex_web ex_cfg = Some st
           \<and> scrape_job ex_web ex_body ex_cfg = Some j
           \<and> project_status (project j) = failed)"
proof -
  let ?d = "getDomain ex_web_down (targetUrl ex_cfg)"
  from C7_failures_do_not_abort[OF ex_cfg_workers, of ex_web_down "\<lambda>p. None"]
  obtain st j where
    st: "scrapeWebsite ex_web_down ex_cfg = Some st"
    and j: "scrape_job ex_web_down (\<lambda>p. None) ex_cfg = Some j"
    and cnt: "project_status (project j) = completed \<longrightarrow>
                failedUrls (project j)
                  = length (filter (\<lambda>t. scrapePage ex_web_down (url t) (depth t) ?d
                                          (category t) = None)
                             (fetched (trace st)))"
    and all: "(\<forall>t\<in>set (fetched (trace st)).
                  scrapePage ex_web_down (url t) (depth t) ?d (category t) = None)
                \<longrightarrow> project_status (project j) = completed"
    by (elim exE conjE)
  from st ex_run_down have tr: "trace st = ex_trace_down" by (simp add: crawl_trace_def)
  have urls: "map url (fetched (trace st))
               = [''https://ex.test/a'', ''https://ex.test/b'', ''https://evil.test/?ref=ex.test'']"
    by (simp add: tr ex_trace_down_def)
  from all ex_down_all_fail have compl: "project_status (project j) = completed"
    by (simp only: tr)
  have "filter (\<lambda>t. scrapePage ex_web_down (url t) (depth t) ?d (category t) = None)
          (fetched (trace st)) = fetched (trace st)"
    using ex_down_all_fail by (simp only: tr filter_id_conv simp_thms)
  with cnt compl have "failedUrls (project j) = length (fetched (trace st))" by simp
  then have three: "failedUrls (project j) = 3" by (simp add: tr ex_trace_down_def)
  from C7_failures_do_not_abort[OF ex_cfg_workers, of ex_web ex_body]
  obtain st' j' where
    st': "scrapeWebsite ex_web ex_cfg = Some st'"
    and j': "scrape_job ex_web ex_body ex_cfg = Some j'"
    and f: "(project_status (project j') = failed)
               = (\<exists>p\<in>set (yielded (trace st')). ex_body p \<noteq> None)"
    by (elim exE conjE)
  from st' ex_run have "trace st' = ex_trace" by (simp add: crawl_trace_def)
  then have "\<exists>p\<in>set (yielded (trace st')). ex_body p \<noteq> None"
    by (simp add: ex_trace_def ex_body_def)
  with f have failed': "project_status (project j') = failed" by simp
  from st j urls compl three have A: "\<exists>st j. scrapeWebsite ex_web_down ex_cfg = Some st
           \<and> map url (fetched (trace st))
               = [''https://ex.test/a'', ''https://ex.test/b'', ''https://evil.test/?ref=ex.test'']
           \<and> scrape_job ex_web_down (\<lambda>p. None) ex_cfg = Some j
           \<and> project_status (project j) = completed
           \<and> failedUrls (project j) = 3"
    by (intro exI[of _ st] exI[of _ j] conjI)
  from st' j' failed' have B: "\<exists>st j. scrapeWebsite ex_web ex_cfg = Some st
           \<and> scrape_job ex_web ex_body ex_cfg = Some j
           \<and> project_status (project j) = failed"
    by (intro exI[of _ st'] exI[of _ j'] conjI)
  from ex_cfg_workers A B show ?thesis by (intro conjI)
qed

subsection \<open>The depth bound\<close>

lemma inv_depth_seed: "inv_depth D (seed_state cfg cats)"
proof -
  have "\<forall>x\<in>set (queue (seed_state cfg cats)). depth x \<le> D"
    using seed_state_queue[of cfg cats] by simp
  then show ?thesis by (simp add: inv_depth_def frontier_def list_all_iff)
qed

lemma inv_depth_step:
  assumes "inv_depth D s" and m: "maxDepth cfg = of_nat D"
  shows "inv_depth D (run_batch env cfg d s)"
proof -
  from frontier_run_batch[of env cfg d s] obtain new where
    n: "frontier (run_batch env cfg d s) = frontier s @ new"
       "\<forall>x\<in>set new. url x \<notin> seen s
               \<and> (\<exists>t\<in>set (batch_of cfg s). child_of env cfg d t x)"
    by (elim exE conjE)
  have "\<forall>x\<in>set new. depth x \<le> D"
  proof
    fix x assume "x \<in> set new"
    with n(2) obtain t where "child_of env cfg d t x" by auto
    then have "depth x = depth t + 1" "(of_nat (depth t) :: rat) < of_nat D"
      by (simp_all add: child_of_def m)
    then show "depth x \<le> D" by simp
  qed
  then have "list_all (\<lambda>x. depth x \<le> D) new" by (simp add: list_all_iff)
  with assms(1) show ?thesis by (simp add: inv_depth_def n(1))
qed

text \<open>
  With a whole number as \<open>maxDepth\<close> the depth bound holds: no entry deeper than
  \<open>maxDepth\<close> is fetched and no page deeper than \<open>maxDepth\<close> is yielded.
\<close>

lemma depth_bound_whole_maxDepth:
  assumes "1 \<le> maxWorkers cfg" and m: "maxDepth cfg = of_nat D"
  shows "\<exists>st. scrapeWebsite env cfg = Some st
           \<and> (\<forall>t\<in>set (fetched (trace st)). depth t \<le> D)
           \<and> (\<forall>p\<in>set (yielded (trace st)). depth p \<le> D)"
proof -
  let ?d = "getDomain env (targetUrl cfg)"
  let ?I = "\<lambda>s. inv_depth D s \<and> inv_yield env ?d s"
  from assms(1) have "\<exists>st. scrapeWebsite env cfg = Some st \<and> ?I st \<and> queue st = []"
  proof (rule scrapeWebsite_rule)
    show "?I (seed_state cfg (extractCategories env (targetUrl cfg) ?d))"
      using inv_depth_seed inv_yield_seed by (intro conjI)
  next
    fix s assume "?I s"
    then show "?I (run_batch env cfg ?d s)"
      using inv_depth_step[OF _ m] inv_yield_step by (intro conjI) simp_all
  qed
  then obtain st where st: "scrapeWebsite env cfg = Some st" "inv_depth D st"
    "inv_yield env ?d st"
    by (elim exE conjE)
  from st(2) have f: "\<forall>t\<in>set (fetched (trace st)). depth t \<le> D"
    by (simp add: inv_depth_def frontier_def list_all_iff)
  have y: "\<forall>p\<in>set (yielded (trace st)). depth p \<le> D"
  proof
    fix p assume "p \<in> set (yielded (trace st))"
    with st(3) have "Some p \<in> set (map (scrape env ?d) (fetched (trace st)))"
      by (simp add: inv_yield_def map_filter_id_mem)
    then obtain t where t: "t \<in> set (fetched (trace st))" "scrape env ?d t = Some p"
      by auto
    from t(2) have "depth p = depth t" by (rule scrape_fields)
    with f t(1) show "depth p \<le> D" by simp
  qed
  from st(1) f y show ?thesis by (intro exI[of _ st] conjI)
qed

text \<open>
  C3. The request schema accepts any number from 1 to 5 as \<open>maxDepth\<close>. With
  \<open>maxDepth\<close> 3/2 the entry \<open>/c\<close> of depth 1 passes the test \<open>depth < maxDepth\<close>, its
  link \<open>/d\<close> is put on the queue with depth 2, and \<open>/d\<close> is fetched and yielded with
  depth 2, which exceeds \<open>maxDepth\<close>.
\<close>

theorem C3_fractional_maxDepth_exceeded:
  "1 \<le> maxDepth ex_cfg_frac \<and> maxDepth ex_cfg_frac \<le> 5
   \<and> crawl_trace ex_web ex_cfg_frac = Some ex_trace_frac
   \<and> Fetch \<lparr>url = ''https://ex.test/d'', depth = 2, category = ''Beta''\<rparr> \<in> set ex_trace_frac
   \<and> Yield \<lparr>url = ''https://ex.test/d'', depth = 2, category = ''Beta'',
             title = ''D'', content = ''deep'', wordCount = 1,
             links = [''https://ex.test/e''], images = []\<rparr> \<in> set ex_trace_frac
   \<and> maxDepth ex_cfg_frac < of_nat 2"
  by (simp add: ex_run_frac) (simp add: ex_trace_frac_def ex_cfg_frac_def)

text \<open>
  C2. The claim fails on the code. \<open>extractCategories\<close> requests the seed URL before the
  loop, and \<open>scrapeWebsite\<close> never puts the seed URL into \<open>seen\<close>: only the category links
  enter it during seeding. When a page links back to the seed URL, the link is not in
  \<open>seen\<close>, so it is put on the queue and the seed URL is requested a second time. In the
  run over the small site \<open>/b\<close> links to \<open>https://ex.test/\<close>, which is requested first by
  \<open>extractCategories\<close> and then again by \<open>scrapePage\<close> at depth 1.
\<close>

theorem C2_seed_url_requested_twice:
  "crawl_trace ex_web ex_cfg = Some ex_trace
   \<and> targetUrl ex_cfg = ''https://ex.test/''
   \<and> targetUrl ex_cfg \<notin> seen (crawl_state ex_web ex_cfg 0)
   \<and> Fetch \<lparr>url = ''https://ex.test/'', depth = 1, category = ''Beta''\<rparr> \<in> set ex_trace
   \<and> requested ex_trace
       = [''https://ex.test/'', ''https://ex.test/a'', ''https://ex.test/b'',
          ''https://evil.test/?ref=ex.test'', ''https://ex.test/'', ''https://ex.test/c'']
   \<and> \<not> distinct (requested ex_trace)"
proof -
  have s: "targetUrl ex_cfg \<notin> seen (crawl_state ex_web ex_cfg 0)"
    by code_simp
  have r: "requested ex_trace
       = [''https://ex.test/'', ''https://ex.test/a'', ''https://ex.test/b'',
          ''https://evil.test/?ref=ex.test'', ''https://ex.test/'', ''https://ex.test/c'']"
    by (simp add: ex_trace_def)
  have m: "Fetch \<lparr>url = ''https://ex.test/'', depth = 1, category = ''Beta''\<rparr> \<in> set ex_trace"
    by (simp add: ex_trace_def)
  have d: "\<not> distinct (requested ex_trace)"
    by (simp add: r)
  have t: "targetUrl ex_cfg = ''https://ex.test/''"
    by (simp add: ex_cfg_def)
  from ex_run t s m r d show ?thesis by (intro conjI)
qed

subsection \<open>Every fetch attempt is reported\<close>









subsection \<open>The title of a page\<close>

lemma trim_empty_iff: "(trim s = []) = list_all is_space s"
proof
  assume "list_all is_space s"
  then have d: "dropWhile is_space s = []"
    by (simp add: dropWhile_eq_Nil_conv list_all_iff)
  show "trim s = []" unfolding trim_def d by simp
next
  assume "trim s = []"
  then have a: "\<forall>x\<in>set (dropWhile is_space s). is_space x"
    by (simp add: trim_def dropWhile_eq_Nil_conv)
  have "dropWhile is_space s = []"
  proof (rule ccontr)
    assume n: "dropWhile is_space s \<noteq> []"
    then have "\<not> is_space (hd (dropWhile is_space s))" by (rule hd_dropWhile)
    moreover from n have "hd (dropWhile is_space s) \<in> set (dropWhile is_space s)"
      by (rule hd_in_set)
    ultimately show False using a by simp
  qed
  then show "list_all is_space s"
    by (simp add: dropWhile_eq_Nil_conv list_all_iff)
qed

lemma nbsp_is_space: "is_space (CHR 0xA0)"
  by (simp add: is_space_def)

text \<open>
  C10. A page that is scraped with success and whose document has no \<open>title\<close> element,
  or whose title text consists of whitespace only and so is empty after \<open>trim\<close>, gets
  the fetched URL as its title.
\<close>

theorem C10_title_defaults_to_url:
  assumes "scrapePage env u d domain cat = Some p"
      and "fetch env u = Inr r"
      and "title_texts (html r) = [] \<or> list_all is_space (concat (title_texts (html r)))"
  shows "title p = u"
proof -
  from scrapePage_SomeD[OF assms(1)] assms(2) have
    t: "title p = (if trim (concat (title_texts (html r))) = [] then u
                   else trim (concat (title_texts (html r))))"
    by auto
  from assms(3) have "list_all is_space (concat (title_texts (html r)))"
    by auto
  then have "trim (concat (title_texts (html r))) = []"
    by (simp only: trim_empty_iff)
  with t show ?thesis by simp
qed

text \<open>
  For C10: the page \<open>https://ex.test/blank\<close>, whose title text is a space, a tab and a
  no-break space, and the page \<open>https://ex.test/c\<close>, which has no \<open>title\<close> element.
\<close>

theorem C10_title_defaults_to_url_witness:
  "scrapePage ex_web_blank ''https://ex.test/blank'' 0 ''ex.test'' ''Blank''
     = Some \<lparr>url = ''https://ex.test/blank'', depth = 0, category = ''Blank'',
             title = ''https://ex.test/blank'', content = ''text'', wordCount = 1,
             links = [], images = []\<rparr>
   \<and> fetch ex_web_blank ''https://ex.test/blank''
       = ex_page ['' '', [CHR 0x09, CHR 0xA0]] ''text'' []
   \<and> concat (title_texts (html (projr (ex_page ['' '', [CHR 0x09, CHR 0xA0]] ''text'' []))))
       = [CHR '' '', CHR 0x09, CHR 0xA0]
   \<and> list_all is_space [CHR '' '', CHR 0x09, CHR 0xA0]
   \<and> title \<lparr>url = ''https://ex.test/blank'', depth = 0, category = ''Blank'',
             title = ''https://ex.test/blank'', content = ''text'', wordCount = 1,
             links = [], images = []\<rparr> = ''https://ex.test/blank''
   \<and> scrapePage ex_web ''https://ex.test/c'' 1 ''ex.test'' ''Beta''
     = Some \<lparr>url = ''https://ex.test/c'', depth = 1, category = ''Beta'',
             title = ''https://ex.test/c'', content = [], wordCount = 1,
             links = [''https://ex.test/d''], images = []\<rparr>
   \<and> fetch ex_web ''https://ex.test/c'' = ex_page [] [] [''https://ex.test/d'']
   \<and> title_texts (html (projr (ex_page [] [] [''https://ex.test/d'']))) = []
   \<and> title \<lparr>url = ''https://ex.test/c'', depth = 1, category = ''Beta'',
             title = ''https://ex.test/c'', content = [], wordCount = 1,
             links = [''https://ex.test/d''], images = []\<rparr> = ''https://ex.test/c''"
proof -
  let ?rb = "projr (ex_page ['' '', [CHR 0x09, CHR 0xA0]] ''text'' [])"
  let ?rc = "projr (ex_page [] [] [''https://ex.test/d''])"
  have sb: "scrapePage ex_web_blank ''https://ex.test/blank'' 0 ''ex.test'' ''Blank''
     = Some \<lparr>url = ''https://ex.test/blank'', depth = 0, category = ''Blank'',
             title = ''https://ex.test/blank'', content = ''text'', wordCount = 1,
             links = [], images = []\<rparr>"
    by code_simp
  have fb: "fetch ex_web_blank ''https://ex.test/blank'' = Inr ?rb"
    by (simp add: ex_web_blank_def ex_page_def)
  have cb: "concat (title_texts (html ?rb)) = [CHR '' '', CHR 0x09, CHR 0xA0]"
    by (simp add: ex_page_def blank_doc_def)
  have wb: "list_all is_space [CHR '' '', CHR 0x09, CHR 0xA0]"
    by (simp add: is_space_def)
  from cb wb have hb: "title_texts (html ?rb) = []
                        \<or> list_all is_space (concat (title_texts (html ?rb)))"
    by simp
  from C10_title_defaults_to_url[OF sb fb hb]
  have tb: "title \<lparr>url = ''https://ex.test/blank'', depth = 0, category = ''Blank'',
             title = ''https://ex.test/blank'', content = ''text'', wordCount = 1,
             links = [], images = []\<rparr> = ''https://ex.test/blank''" .
  have sc: "scrapePage ex_web ''https://ex.test/c'' 1 ''ex.test'' ''Beta''
     = Some \<lparr>url = ''https://ex.test/c'', depth = 1, category = ''Beta'',
             title = ''https://ex.test/c'', content = [], wordCount = 1,
             links = [''https://ex.test/d''], images = []\<rparr>"
    by code_simp
  have fc: "fetch ex_web ''https://ex.test/c'' = Inr ?rc"
    by (simp add: ex_web_def ex_fetch_def ex_page_def)
  have ec: "title_texts (html ?rc) = []"
    by (simp add: ex_page_def blank_doc_def)
  then have hc: "title_texts (html ?rc) = []
                  \<or> list_all is_space (concat (title_texts (html ?rc)))" ..
  from C10_title_defaults_to_url[OF sc fc hc]
  have tc: "title \<lparr>url = ''https://ex.test/c'', depth = 1, category = ''Beta'',
             title = ''https://ex.test/c'', content = [], wordCount = 1,
             links = [''https://ex.test/d''], images = []\<rparr> = ''https://ex.test/c''" .
  have fb': "fetch ex_web_blank ''https://ex.test/blank''
       = ex_page ['' '', [CHR 0x09, CHR 0xA0]] ''text'' []"
    using fb by (simp add: ex_page_def)
  have fc': "fetch ex_web ''https://ex.test/c'' = ex_page [] [] [''https://ex.test/d'']"
    using fc by (simp add: ex_page_def)
  from sb fb' cb wb tb sc fc' ec tc show ?thesis by (intro conjI)
qed

end
